theory Spec2Isabelle
  imports Main "HOL-Library.Multiset"
begin

section \<open>The executor pool of exec.go\<close>

text \<open>
  The package keeps one \<open>ExecPool\<close> per batch of external commands. A caller enqueues
  commands (\<open>AddCommand\<close>), may add environment settings (\<open>AddEnv\<close>), starts the pool
  (\<open>Start\<close>: loads the input channel, closes it, spawns the workers), waits for the
  workers (\<open>Wait\<close>: collects the output channel into \<open>cmdOutput\<close>) and looks results up
  (\<open>GetResults\<close>).

  The embedding passes the state explicitly. Go's \<open>error\<close> results are options of the
  message, a panic and a blocked goroutine are values of \<open>outcome\<close>, and the commands
  (\<open>*exec.Cmd\<close>) live in a store indexed by address, with \<open>None\<close> for the nil pointer.
  The goroutines are a list of worker states. A worker moves in steps (receive a request,
  run its command, send the result, exit), each of them atomic, and a run of the system
  lists the steps and the caller's calls in the order they take effect; theorems about
  runs hold for every such order. A call that blocks ends the run: a \<open>Wait\<close> that the
  program enters early and that waits for the workers is the \<open>Wait\<close> of the run in which
  the steps of the workers come first.

  What the standard library and the operating system do enters as parameters: the clock
  readings, the samples of the random source, and \<open>run\<close> for \<open>exec.Cmd.Run\<close>. The debug
  log lines, and the \<open>workerId\<close> that only they print, are left out.
\<close>

subsection \<open>Outcomes of a call\<close>

datatype panic =
  NilDereference
  | SendOnClosedChannel
  | CloseOfClosedChannel
  | CloseOfNilChannel
  | NegativeWaitGroupCounter

datatype 'a outcome = Done 'a | Panic panic | Blocks

type_synonym error = string
type_synonym addr = nat
type_synonym Time = nat

subsection \<open>Channels\<close>

text \<open>
  A buffered channel: its queue, its capacity and whether it was closed. A nil channel
  is \<open>None\<close> where a channel is expected. Sending on a closed channel panics, sending on
  a full one blocks; receiving from an empty channel blocks until it is closed, and then
  reports the end (\<open>None\<close>), which is what ends a \<open>range\<close> loop.
\<close>

record 'a chan =
  buf :: "'a list"
  cap :: nat
  chanClosed :: bool

definition make_chan :: "nat \<Rightarrow> 'a chan" where
  "make_chan n = \<lparr>buf = [], cap = n, chanClosed = False\<rparr>"

definition chan_send :: "'a \<Rightarrow> 'a chan \<Rightarrow> 'a chan outcome" where
  "chan_send x c =
     (if chanClosed c then Panic SendOnClosedChannel
      else if length (buf c) < cap c then Done (c\<lparr>buf := buf c @ [x]\<rparr>)
      else Blocks)"

definition chan_recv :: "'a chan \<Rightarrow> ('a option \<times> 'a chan) outcome" where
  "chan_recv c =
     (case buf c of
        x # xs \<Rightarrow> Done (Some x, c\<lparr>buf := xs\<rparr>)
      | [] \<Rightarrow> if chanClosed c then Done (None, c) else Blocks)"

definition chan_close :: "'a chan \<Rightarrow> 'a chan outcome" where
  "chan_close c =
     (if chanClosed c then Panic CloseOfClosedChannel else Done (c\<lparr>chanClosed := True\<rparr>))"

subsection \<open>The data of the package\<close>

text \<open>
  The part of \<open>exec.Cmd\<close> the package touches: \<open>Env\<close> (nil is the empty list) and
  \<open>ProcessState\<close> (\<open>None\<close> is nil, \<open>Some c\<close> a state whose \<open>ExitCode()\<close> is \<open>c\<close>);
  \<open>Path\<close> and \<open>Args\<close> say which command it is. The output sinks a worker binds are
  local to the worker: what was written to them is part of \<open>RunOutcome\<close>.
\<close>

record Cmd =
  Path :: string
  Args :: "string list"
  Env :: "string list"
  ProcessState :: "int option"

record RunOutcome =
  runErr :: "error option"
  outText :: string
  errText :: string
  procState :: "int option"

record CommandRequest =
  jobSequence :: int
  jobId :: string
  command :: "addr option"

record CommandResult =
  JobSequence :: int
  JobId :: string
  RunError :: "error option"
  StdOut :: string
  StdErr :: string
  ReturnCode :: int

record ExecPool =
  workerChanIn :: "CommandRequest chan option"
  workerChanOut :: "CommandResult chan option"
  executors :: int
  cmdOutput :: "CommandResult list"
  cmdQueue :: "CommandRequest list"
  startTime :: Time
  endTime :: Time
  inputClosed :: bool
  waitGroup :: int
  poolId :: string
  cmdEnv :: "string list"

text \<open>Where a worker goroutine stands in its loop.\<close>

datatype wstate =
  Receiving
  | Running CommandRequest
  | Sending CommandResult
  | Exited

text \<open>
  The whole system: the pool, the store of commands, the goroutines, the outside world
  the commands run in, and the trace of \<open>Run()\<close> calls (the address of each command run,
  in order).
\<close>

record 'w sys =
  pool :: ExecPool
  heap :: "addr \<Rightarrow> Cmd"
  workers :: "wstate list"
  world :: 'w
  runs :: "addr list"

subsection \<open>RandomString and the job identifier\<close>

definition letters :: string where
  "letters = ''abcdefghijklmnopqrstuvwxyzABCDEFGHIJKLMNOPQRSTUVWXYZ0123456789''"

text \<open>\<open>rnd i\<close> is the sample behind the \<open>i\<close>-th \<open>rand.Intn\<close>, which reduces it to the range.\<close>

definition Intn :: "nat \<Rightarrow> nat \<Rightarrow> nat" where
  "Intn n r = r mod n"

definition RandomString :: "(nat \<Rightarrow> nat) \<Rightarrow> nat \<Rightarrow> string" where
  "RandomString rnd n = map (\<lambda>i. letters ! Intn (length letters) (rnd i)) [0..<n]"

definition digit :: "nat \<Rightarrow> char" where
  "digit d = ''0123456789'' ! d"

fun digits10 :: "nat \<Rightarrow> string" where
  "digits10 n = (if n < 10 then [digit n] else digits10 (n div 10) @ [digit (n mod 10)])"

declare digits10.simps [simp del]

definition zero_pad :: "nat \<Rightarrow> string \<Rightarrow> string" where
  "zero_pad w s = replicate (w - length s) (CHR ''0'') @ s"

text \<open>The verb \<open>%012d\<close>: decimal, zero-padded to width 12, the sign first.\<close>

definition fmt012d :: "int \<Rightarrow> string" where
  "fmt012d i =
     (if i < 0 then CHR ''-'' # zero_pad 11 (digits10 (nat (- i)))
      else zero_pad 12 (digits10 (nat i)))"

text \<open>\<open>fmt.Sprintf("%s-%012d-%s", now, seq, poolId)\<close>, \<open>now\<close> the formatted clock reading.\<close>

definition job_id :: "string \<Rightarrow> int \<Rightarrow> string \<Rightarrow> string" where
  "job_id now seq pid = now @ ''-'' @ fmt012d seq @ ''-'' @ pid"

text \<open>Reading a decimal numeral back, for stating that the identifier embeds the sequence.\<close>

definition digit_val :: "char \<Rightarrow> nat" where
  "digit_val c = of_char c - 48"

definition dec_val :: "string \<Rightarrow> nat" where
  "dec_val s = foldl (\<lambda>acc c. 10 * acc + digit_val c) 0 s"

subsection \<open>The operations\<close>

definition NewExecPool :: "int \<Rightarrow> (nat \<Rightarrow> nat) \<Rightarrow> ExecPool" where
  "NewExecPool n rnd =
     \<lparr>workerChanIn = None, workerChanOut = None, executors = n, cmdOutput = [],
      cmdQueue = [], startTime = 0, endTime = 0, inputClosed = False, waitGroup = 0,
      poolId = RandomString rnd 12, cmdEnv = []\<rparr>"

definition AddCommand :: "addr option \<Rightarrow> string \<Rightarrow> ExecPool \<Rightarrow> string \<times> ExecPool" where
  "AddCommand cmd now e =
     (let seq = int (length (cmdQueue e));
          jid = job_id now seq (poolId e);
          cmdRequest = \<lparr>jobSequence = seq, jobId = jid, command = cmd\<rparr>
      in (jid, e\<lparr>cmdQueue := cmdQueue e @ [cmdRequest]\<rparr>))"

definition AddEnv :: "string \<Rightarrow> ExecPool \<Rightarrow> error option \<times> ExecPool" where
  "AddEnv envSetting e =
     (if inputClosed e then (Some ''can not set env after jobs have started'', e)
      else (None, e\<lparr>cmdEnv := cmdEnv e @ [envSetting]\<rparr>))"

text \<open>
  The loading loop of \<open>Start\<close>: each queued request gets the pool's environment (when
  there is one; a nil command panics there) and is sent on the input channel.
\<close>

fun load_jobs ::
  "string list \<Rightarrow> CommandRequest list \<Rightarrow> (addr \<Rightarrow> Cmd) \<Rightarrow> CommandRequest chan \<Rightarrow>
   ((addr \<Rightarrow> Cmd) \<times> CommandRequest chan) outcome" where
  "load_jobs env [] h c = Done (h, c)"
| "load_jobs env (jobRequest # rest) h c =
     (if env \<noteq> [] \<and> command jobRequest = None then Panic NilDereference
      else
        let h' = (case command jobRequest of
                    Some a \<Rightarrow> if env \<noteq> [] then h(a := (h a)\<lparr>Env := env\<rparr>) else h
                  | None \<Rightarrow> h);
            job = \<lparr>jobSequence = jobSequence jobRequest, jobId = jobId jobRequest,
                   command = command jobRequest\<rparr>
        in case chan_send job c of
             Done c' \<Rightarrow> load_jobs env rest h' c'
           | Panic p \<Rightarrow> Panic p
           | Blocks \<Rightarrow> Blocks)"

text \<open>The spawning loop: \<open>waitGroup.Add(1)\<close> and a new goroutine, \<open>executors\<close> times.\<close>

primrec spawn :: "nat \<Rightarrow> 'w sys \<Rightarrow> 'w sys" where
  "spawn 0 s = s"
| "spawn (Suc k) s =
     spawn k (s\<lparr>pool := (pool s)\<lparr>waitGroup := waitGroup (pool s) + 1\<rparr>,
               workers := workers s @ [Receiving]\<rparr>)"

definition Start :: "Time \<Rightarrow> 'w sys \<Rightarrow> (error option \<times> 'w sys) outcome" where
  "Start now s =
     (let e = pool s in
      if inputClosed e then Done (Some ''can not start again'', s)
      else
        let n = length (cmdQueue e) in
        case load_jobs (cmdEnv e) (cmdQueue e) (heap s) (make_chan n) of
          Panic p \<Rightarrow> Panic p
        | Blocks \<Rightarrow> Blocks
        | Done (h, cin) \<Rightarrow>
            (case chan_close cin of
               Panic p \<Rightarrow> Panic p
             | Blocks \<Rightarrow> Blocks
             | Done cin' \<Rightarrow>
                 Done (None,
                   spawn (nat (executors e))
                     (s\<lparr>pool := e\<lparr>inputClosed := True, workerChanIn := Some cin',
                                  workerChanOut := Some (make_chan n), startTime := now\<rparr>,
                        heap := h\<rparr>))))"

text \<open>The collecting loop of \<open>Wait\<close>, over what the closed output channel still holds.\<close>

primrec collect :: "CommandResult list \<Rightarrow> CommandResult list \<Rightarrow> CommandResult list" where
  "collect [] out = out"
| "collect (workerOutput # rest) out = collect rest (out @ [workerOutput])"

text \<open>\<open>waitGroup.Wait()\<close> blocks while the counter is not zero.\<close>

definition Wait :: "Time \<Rightarrow> ExecPool \<Rightarrow> (error option \<times> ExecPool) outcome" where
  "Wait now e =
     (if \<not> inputClosed e then
        Done (Some ''attempting to wait for jobs that have not started'', e)
      else if waitGroup e \<noteq> 0 then Blocks
      else
        case workerChanOut e of
          None \<Rightarrow> Panic CloseOfNilChannel
        | Some c \<Rightarrow>
            (case chan_close c of
               Panic p \<Rightarrow> Panic p
             | Blocks \<Rightarrow> Blocks
             | Done c' \<Rightarrow>
                 Done (None,
                   e\<lparr>workerChanOut := Some (c'\<lparr>buf := []\<rparr>),
                     cmdOutput := collect (buf c') (cmdOutput e),
                     endTime := now\<rparr>)))"

fun scan :: "CommandResult list \<Rightarrow> string \<Rightarrow> CommandResult option" where
  "scan [] jid = None"
| "scan (output # rest) jid = (if JobId output = jid then Some output else scan rest jid)"

definition GetResults :: "ExecPool \<Rightarrow> string \<Rightarrow> CommandResult option" where
  "GetResults e jid = scan (cmdOutput e) jid"

subsection \<open>The worker\<close>

text \<open>\<open>(*os.ProcessState).ExitCode()\<close>: \<open>-1\<close> on a nil receiver (the process never started).\<close>

definition ExitCode :: "int option \<Rightarrow> int" where
  "ExitCode ps = (case ps of None \<Rightarrow> - 1 | Some c \<Rightarrow> c)"

text \<open>
  The result a worker builds from a request and what \<open>Run()\<close> did. \<open>JobSequence\<close> is not
  among the fields the composite literal sets, so it is Go's zero value.
\<close>

definition make_result :: "CommandRequest \<Rightarrow> RunOutcome \<Rightarrow> CommandResult" where
  "make_result job oc =
     \<lparr>JobSequence = 0, JobId = jobId job, RunError = runErr oc, StdOut = outText oc,
      StdErr = errText oc, ReturnCode = ExitCode (procState oc)\<rparr>"

text \<open>
  One step of worker \<open>i\<close>: receive a request (or see the channel closed and drained, and
  call \<open>wg.Done()\<close>), run the command it holds, or send the result it built. \<open>run\<close> is
  \<open>exec.Cmd.Run\<close> with the two buffers bound: from the world and the command as it
  stands, the new world and the outcome.
\<close>

definition worker_step ::
  "('w \<Rightarrow> Cmd \<Rightarrow> 'w \<times> RunOutcome) \<Rightarrow> nat \<Rightarrow> 'w sys \<Rightarrow> 'w sys outcome" where
  "worker_step run i s =
     (if length (workers s) \<le> i then Blocks
      else
        case workers s ! i of
          Receiving \<Rightarrow>
            (case workerChanIn (pool s) of
               None \<Rightarrow> Blocks
             | Some c \<Rightarrow>
                 (case chan_recv c of
                    Blocks \<Rightarrow> Blocks
                  | Panic p \<Rightarrow> Panic p
                  | Done (Some job, c') \<Rightarrow>
                      Done (s\<lparr>pool := (pool s)\<lparr>workerChanIn := Some c'\<rparr>,
                              workers := (workers s)[i := Running job]\<rparr>)
                  | Done (None, c') \<Rightarrow>
                      if waitGroup (pool s) - 1 < 0 then Panic NegativeWaitGroupCounter
                      else Done (s\<lparr>pool := (pool s)\<lparr>waitGroup := waitGroup (pool s) - 1\<rparr>,
                                   workers := (workers s)[i := Exited]\<rparr>)))
        | Running job \<Rightarrow>
            (case command job of
               None \<Rightarrow> Panic NilDereference
             | Some a \<Rightarrow>
                 (case run (world s) (heap s a) of
                    (w', oc) \<Rightarrow>
                      Done (s\<lparr>heap := (heap s)(a := (heap s a)\<lparr>ProcessState := procState oc\<rparr>),
                              world := w',
                              runs := runs s @ [a],
                              workers := (workers s)[i := Sending (make_result job oc)]\<rparr>)))
        | Sending output \<Rightarrow>
            (case workerChanOut (pool s) of
               None \<Rightarrow> Blocks
             | Some c \<Rightarrow>
                 (case chan_send output c of
                    Blocks \<Rightarrow> Blocks
                  | Panic p \<Rightarrow> Panic p
                  | Done c' \<Rightarrow>
                      Done (s\<lparr>pool := (pool s)\<lparr>workerChanOut := Some c'\<rparr>,
                              workers := (workers s)[i := Receiving]\<rparr>)))
        | Exited \<Rightarrow> Blocks)"

subsection \<open>Runs of the system\<close>

text \<open>
  What can happen to a pool: the caller's calls, with the clock readings they take, and
  the steps of the workers. A run is a list of them; it ends at the first panic or at a
  call that cannot go on.
\<close>

datatype call =
  CallAddCommand "addr option" string
  | CallAddEnv string
  | CallStart Time
  | CallWait Time
  | CallGetResults string
  | StepWorker nat

datatype ret =
  RetId string
  | RetErr "error option"
  | RetResult "CommandResult option"
  | RetStep

definition exec_call ::
  "('w \<Rightarrow> Cmd \<Rightarrow> 'w \<times> RunOutcome) \<Rightarrow> call \<Rightarrow> 'w sys \<Rightarrow> (ret \<times> 'w sys) outcome" where
  "exec_call run c s =
     (case c of
        CallAddCommand cmd now \<Rightarrow>
          (case AddCommand cmd now (pool s) of (jid, e) \<Rightarrow> Done (RetId jid, s\<lparr>pool := e\<rparr>))
      | CallAddEnv envSetting \<Rightarrow>
          (case AddEnv envSetting (pool s) of (err, e) \<Rightarrow> Done (RetErr err, s\<lparr>pool := e\<rparr>))
      | CallStart now \<Rightarrow>
          (case Start now s of
             Done (err, s') \<Rightarrow> Done (RetErr err, s')
           | Panic p \<Rightarrow> Panic p
           | Blocks \<Rightarrow> Blocks)
      | CallWait now \<Rightarrow>
          (case Wait now (pool s) of
             Done (err, e) \<Rightarrow> Done (RetErr err, s\<lparr>pool := e\<rparr>)
           | Panic p \<Rightarrow> Panic p
           | Blocks \<Rightarrow> Blocks)
      | CallGetResults jid \<Rightarrow> Done (RetResult (GetResults (pool s) jid), s)
      | StepWorker i \<Rightarrow>
          (case worker_step run i s of
             Done s' \<Rightarrow> Done (RetStep, s')
           | Panic p \<Rightarrow> Panic p
           | Blocks \<Rightarrow> Blocks))"

fun exec_calls ::
  "('w \<Rightarrow> Cmd \<Rightarrow> 'w \<times> RunOutcome) \<Rightarrow> call list \<Rightarrow> 'w sys \<Rightarrow> (ret list \<times> 'w sys) outcome" where
  "exec_calls run [] s = Done ([], s)"
| "exec_calls run (c # cs) s =
     (case exec_call run c s of
        Panic p \<Rightarrow> Panic p
      | Blocks \<Rightarrow> Blocks
      | Done (r, s') \<Rightarrow>
          (case exec_calls run cs s' of
             Panic p \<Rightarrow> Panic p
           | Blocks \<Rightarrow> Blocks
           | Done (rs, s'') \<Rightarrow> Done (r # rs, s'')))"

definition new_sys :: "int \<Rightarrow> (nat \<Rightarrow> nat) \<Rightarrow> (addr \<Rightarrow> Cmd) \<Rightarrow> 'w \<Rightarrow> 'w sys" where
  "new_sys n rnd h w = \<lparr>pool = NewExecPool n rnd, heap = h, workers = [], world = w, runs = []\<rparr>"

subsection \<open>Bookkeeping for the proofs\<close>

text \<open>The identifiers returned by the calls of a run, and the commands they enqueued.\<close>

fun ret_ids :: "ret list \<Rightarrow> string list" where
  "ret_ids [] = []"
| "ret_ids (RetId j # rs) = j # ret_ids rs"
| "ret_ids (r # rs) = ret_ids rs"

fun added_cmds :: "call list \<Rightarrow> addr option list" where
  "added_cmds [] = []"
| "added_cmds (CallAddCommand a t # cs) = a # added_cmds cs"
| "added_cmds (c # cs) = added_cmds cs"

text \<open>
  What a worker holds between two of its steps: the identifier of the job it works on,
  the command it is about to run, and whether the wait group still counts it.
\<close>

fun holds_ids :: "wstate \<Rightarrow> string multiset" where
  "holds_ids (Running job) = {#jobId job#}"
| "holds_ids (Sending output) = {#JobId output#}"
| "holds_ids Receiving = {#}"
| "holds_ids Exited = {#}"

fun holds_cmds :: "wstate \<Rightarrow> addr option multiset" where
  "holds_cmds (Running job) = {#command job#}"
| "holds_cmds (Sending output) = {#}"
| "holds_cmds Receiving = {#}"
| "holds_cmds Exited = {#}"

fun alive :: "wstate \<Rightarrow> nat" where
  "alive Exited = 0"
| "alive Receiving = 1"
| "alive (Running job) = 1"
| "alive (Sending output) = 1"

text \<open>A pool before \<open>Start\<close>: no channels, no workers, nothing run, nothing collected.\<close>

definition unstarted :: "'w sys \<Rightarrow> bool" where
  "unstarted s \<longleftrightarrow>
     \<not> inputClosed (pool s) \<and> cmdOutput (pool s) = [] \<and> workers s = [] \<and>
     waitGroup (pool s) = 0 \<and> runs s = [] \<and>
     workerChanIn (pool s) = None \<and> workerChanOut (pool s) = None"

text \<open>The \<open>k\<close>-th request of the queue carries an identifier minted with sequence number \<open>k\<close>.\<close>

definition numbered :: "string \<Rightarrow> CommandRequest list \<Rightarrow> bool" where
  "numbered pid q \<longleftrightarrow> (\<forall>k<length q. \<exists>t. jobId (q ! k) = job_id t (int k) pid)"

text \<open>
  A pool between \<open>Start\<close> and \<open>Wait\<close>, for the queue \<open>Q\<close> that was loaded: every job is
  in exactly one place (the input channel, a worker, the output channel), every command
  is still to be run or in the trace of runs, and the wait group counts the workers that
  have not exited.
\<close>

definition running :: "CommandRequest list \<Rightarrow> 'w sys \<Rightarrow> bool" where
  "running Q s \<longleftrightarrow>
     inputClosed (pool s) \<and> cmdQueue (pool s) = Q \<and> cmdOutput (pool s) = [] \<and>
     waitGroup (pool s) = int (sum_list (map alive (workers s))) \<and>
     length (workers s) = nat (executors (pool s)) \<and>
     (case workerChanIn (pool s) of
        None \<Rightarrow> False
      | Some cin \<Rightarrow>
          (case workerChanOut (pool s) of
             None \<Rightarrow> False
           | Some cout \<Rightarrow>
               chanClosed cin \<and> \<not> chanClosed cout \<and> cap cout = length Q \<and>
               mset (map jobId (buf cin)) + sum_list (map holds_ids (workers s)) +
                 mset (map JobId (buf cout)) = mset (map jobId Q) \<and>
               mset (map command (buf cin)) + sum_list (map holds_cmds (workers s)) +
                 mset (map Some (runs s)) = mset (map command Q) \<and>
               (Exited \<in> set (workers s) \<longrightarrow> buf cin = [])))"

text \<open>
  The number of steps the workers still have to take: three for each request waiting in
  the input channel (receive, run, send), what is left of the job in hand, and one step
  to exit.
\<close>

fun weight :: "wstate \<Rightarrow> nat" where
  "weight Exited = 0"
| "weight Receiving = 1"
| "weight (Sending r) = 2"
| "weight (Running job) = 3"

definition remaining :: "'w sys \<Rightarrow> nat" where
  "remaining s =
     3 * (case workerChanIn (pool s) of None \<Rightarrow> 0 | Some c \<Rightarrow> length (buf c)) +
     sum_list (map weight (workers s))"

text \<open>Every result there is, wherever it is, has \<open>JobSequence\<close> zero.\<close>

definition zero_seq :: "'w sys \<Rightarrow> bool" where
  "zero_seq s \<longleftrightarrow>
     (\<forall>r\<in>set (cmdOutput (pool s)). JobSequence r = 0) \<and>
     (case workerChanOut (pool s) of
        None \<Rightarrow> True
      | Some c \<Rightarrow> \<forall>r\<in>set (buf c). JobSequence r = 0) \<and>
     (\<forall>r. Sending r \<in> set (workers s) \<longrightarrow> JobSequence r = 0)"

subsection \<open>A concrete setting for examples\<close>

text \<open>
  Three commands (one that prints, one that exits with status 1, one whose executable is
  missing), an operating system that counts the processes it was asked to run, and a
  random source.
\<close>

definition demo_heap :: "addr \<Rightarrow> Cmd" where
  "demo_heap a =
     (if a = 0 then \<lparr>Path = ''/bin/echo'', Args = [''echo'', ''hello''], Env = [], ProcessState = None\<rparr>
      else if a = 1 then \<lparr>Path = ''/bin/false'', Args = [''false''], Env = [], ProcessState = None\<rparr>
      else \<lparr>Path = ''/no/such/file'', Args = [], Env = [], ProcessState = None\<rparr>)"

definition demo_run :: "nat \<Rightarrow> Cmd \<Rightarrow> nat \<times> RunOutcome" where
  "demo_run w c =
     (Suc w,
      if Path c = ''/bin/echo'' then
        \<lparr>runErr = None, outText = ''hello'', errText = [], procState = Some 0\<rparr>
      else if Path c = ''/bin/false'' then
        \<lparr>runErr = Some ''exit status 1'', outText = [], errText = [], procState = Some 1\<rparr>
      else
        \<lparr>runErr = Some ''no such file or directory'', outText = [], errText = [],
         procState = None\<rparr>)"

definition demo_rnd :: "nat \<Rightarrow> nat" where
  "demo_rnd i = 7 * i + 3"

text \<open>
  A whole run: two commands are enqueued (the second one's executable is missing), the
  pool is started with one worker, the worker takes its seven steps, and \<open>Wait\<close> collects.
\<close>

definition demo_calls :: "call list" where
  "demo_calls =
     [CallAddCommand (Some 0) ''2023-01-01T00:00:00Z'',
      CallAddCommand (Some 2) ''2023-01-01T00:00:01Z'',
      CallStart 10,
      StepWorker 0, StepWorker 0, StepWorker 0,
      StepWorker 0, StepWorker 0, StepWorker 0,
      StepWorker 0,
      CallWait 20]"

section \<open>Basic facts about the operations\<close>

lemma collect_append: "collect rs out = out @ rs"
  by (induction rs arbitrary: out) simp_all

lemma spawn_eq:
  "spawn k s = s\<lparr>pool := (pool s)\<lparr>waitGroup := waitGroup (pool s) + int k\<rparr>,
                 workers := workers s @ replicate k Receiving\<rparr>"
  by (induction k arbitrary: s) (simp_all add: replicate_app_Cons_same)

lemma request_copy [simp]:
  "\<lparr>jobSequence = jobSequence j, jobId = jobId j, command = command j\<rparr> = j"
  by (cases j) simp

lemma load_jobs_Done:
  "load_jobs env q h c = Done (h', c') \<Longrightarrow> c' = c\<lparr>buf := buf c @ q\<rparr>"
proof (induction q arbitrary: h c)
  case Nil
  then show ?case by simp
next
  case (Cons j q)
  from Cons.prems obtain h1 where
    "load_jobs env q h1 (c\<lparr>buf := buf c @ [j]\<rparr>) = Done (h', c')"
    by (auto simp: chan_send_def Let_def split: if_splits outcome.splits option.splits)
  from Cons.IH [OF this] show ?case by simp
qed

lemma exec_calls_append:
  "exec_calls run (xs @ ys) s =
     (case exec_calls run xs s of
        Panic p \<Rightarrow> Panic p
      | Blocks \<Rightarrow> Blocks
      | Done (r1, s1) \<Rightarrow>
          (case exec_calls run ys s1 of
             Panic p \<Rightarrow> Panic p
           | Blocks \<Rightarrow> Blocks
           | Done (r2, s2) \<Rightarrow> Done (r1 @ r2, s2)))"
  by (induction xs arbitrary: s) (auto split: outcome.splits prod.splits)

lemma exec_calls_append_Done:
  assumes "exec_calls run (xs @ ys) s = Done (rets, s2)"
  obtains r1 s1 r2 where "exec_calls run xs s = Done (r1, s1)"
    and "exec_calls run ys s1 = Done (r2, s2)" and "rets = r1 @ r2"
  using assms by (auto simp: exec_calls_append split: outcome.splits prod.splits)

lemma exec_calls_Cons_Done:
  assumes "exec_calls run (c # cs) s = Done (rets, s2)"
  obtains r s1 rs where "exec_call run c s = Done (r, s1)"
    and "exec_calls run cs s1 = Done (rs, s2)" and "rets = r # rs"
  using assms by (auto split: outcome.splits prod.splits)

lemma exec_calls_length:
  "exec_calls run cs s = Done (rets, s') \<Longrightarrow> length rets = length cs"
  by (induction cs arbitrary: s rets) (auto split: outcome.splits prod.splits)

lemma worker_step_frame:
  assumes "worker_step run i s = Done s'"
  shows "inputClosed (pool s') = inputClosed (pool s)"
    and "cmdQueue (pool s') = cmdQueue (pool s)"
    and "cmdOutput (pool s') = cmdOutput (pool s)"
    and "poolId (pool s') = poolId (pool s)"
    and "cmdEnv (pool s') = cmdEnv (pool s)"
    and "executors (pool s') = executors (pool s)"
  using assms
  by (auto simp: worker_step_def chan_recv_def chan_send_def
      split: if_splits wstate.splits option.splits list.splits outcome.splits prod.splits)

lemma Start_Done:
  assumes "Start now s = Done (err, s')"
  shows "(inputClosed (pool s) \<and> err = Some ''can not start again'' \<and> s' = s) \<or>
         (\<not> inputClosed (pool s) \<and> err = None \<and>
          (\<exists>h. load_jobs (cmdEnv (pool s)) (cmdQueue (pool s)) (heap s)
                  (make_chan (length (cmdQueue (pool s)))) =
                Done (h, \<lparr>buf = cmdQueue (pool s), cap = length (cmdQueue (pool s)), chanClosed = False\<rparr>) \<and>
           s' = s\<lparr>pool := (pool s)\<lparr>inputClosed := True,
                     workerChanIn := Some \<lparr>buf = cmdQueue (pool s), cap = length (cmdQueue (pool s)), chanClosed = True\<rparr>,
                     workerChanOut := Some (make_chan (length (cmdQueue (pool s)))),
                     startTime := now,
                     waitGroup := waitGroup (pool s) + int (nat (executors (pool s)))\<rparr>,
                   heap := h,
                   workers := workers s @ replicate (nat (executors (pool s))) Receiving\<rparr>))"
  using assms
  apply (simp add: Start_def Let_def split: if_splits outcome.splits prod.splits)
  apply (auto simp: spawn_eq chan_close_def make_chan_def dest!: load_jobs_Done split: if_splits)
  done

lemmas demo_simps = exec_call_def AddCommand_def AddEnv_def Start_def Wait_def worker_step_def
  chan_send_def chan_recv_def chan_close_def make_chan_def new_sys_def NewExecPool_def Let_def
  spawn_eq GetResults_def collect_append demo_heap_def demo_run_def make_result_def ExitCode_def

lemma demo_calls_Done:
  "\<exists>rets s. exec_calls demo_run demo_calls (new_sys 1 demo_rnd demo_heap (0::nat)) = Done (rets, s) \<and>
     map jobSequence (cmdQueue (pool s)) = [0, 1] \<and>
     map ReturnCode (cmdOutput (pool s)) = [0, - 1] \<and>
     map RunError (cmdOutput (pool s)) = [None, Some ''no such file or directory''] \<and>
     runs s = [0, 2]"
  by (simp add: demo_simps demo_calls_def)

lemma demo_mid_Done:
  "\<exists>rets s job.
     exec_calls demo_run
       ([CallAddCommand (Some 0) ''2023-01-01T00:00:00Z'',
         CallAddCommand (Some 2) ''2023-01-01T00:00:01Z''] @
        CallStart 10 # [StepWorker 0, StepWorker 0, StepWorker 0, StepWorker 0])
       (new_sys 1 demo_rnd demo_heap (0::nat)) = Done (rets, s) \<and>
     length (workers s) = 1 \<and> workers s ! 0 = Running job \<and> command job = Some 2 \<and>
     Path (heap s 2) = ''/no/such/file''"
  by (simp add: demo_simps)

section \<open>The started flag\<close>

lemma exec_call_inputClosed_mono:
  assumes "exec_call run c s = Done (r, s')" and "inputClosed (pool s)"
  shows "inputClosed (pool s')"
proof (cases c)
  case (CallStart now)
  with assms obtain err where "Start now s = Done (err, s')"
    by (auto simp: exec_call_def split: outcome.splits prod.splits)
  from Start_Done [OF this] assms(2) show ?thesis by auto
next
  case (StepWorker i)
  with assms have "worker_step run i s = Done s'"
    by (auto simp: exec_call_def split: outcome.splits)
  from worker_step_frame(1) [OF this] assms(2) show ?thesis by simp
qed (use assms in \<open>auto simp: exec_call_def AddCommand_def AddEnv_def Wait_def Let_def
      split: outcome.splits prod.splits if_splits option.splits\<close>)

lemma exec_calls_inputClosed_mono:
  "exec_calls run cs s = Done (rets, s') \<Longrightarrow> inputClosed (pool s) \<Longrightarrow> inputClosed (pool s')"
proof (induction cs arbitrary: s rets)
  case Nil
  then show ?case by simp
next
  case (Cons c cs)
  from Cons.prems(1) obtain r s1 rs where c: "exec_call run c s = Done (r, s1)"
    and cs: "exec_calls run cs s1 = Done (rs, s')"
    by (rule exec_calls_Cons_Done)
  from exec_call_inputClosed_mono [OF c Cons.prems(2)] Cons.IH [OF cs] show ?case by simp
qed

text \<open>
  C4. Once \<open>Start\<close> has succeeded on a pool, and whatever calls and worker steps
  followed, another \<open>Start\<close> returns the error "can not start again" and the whole state
  (the pool with its queue, channels, results and flag, the commands, the workers and the
  trace of runs) is what it was: nothing is dispatched or run again.
\<close>

theorem Start_again_fails:
  assumes "Start t1 s = Done (None, s1)"
    and "exec_calls run cs s1 = Done (rets, s2)"
  shows "Start t2 s2 = Done (Some ''can not start again'', s2) \<and>
         exec_call run (CallStart t2) s2 = Done (RetErr (Some ''can not start again''), s2)"
proof -
  from Start_Done [OF assms(1)] have "inputClosed (pool s1)" by auto
  from exec_calls_inputClosed_mono [OF assms(2) this] have "inputClosed (pool s2)" .
  then show ?thesis by (simp add: Start_def exec_call_def)
qed

theorem Start_again_fails_witness:
  "\<exists>s1 rets s2.
     Start 5 (new_sys 1 demo_rnd demo_heap (0::nat)) = Done (None, s1) \<and>
     exec_calls demo_run [StepWorker 0, CallAddEnv ''A=1''] s1 = Done (rets, s2) \<and>
     Start 9 s2 = Done (Some ''can not start again'', s2)"
proof -
  have "\<exists>s1. Start 5 (new_sys 1 demo_rnd demo_heap (0::nat)) = Done (None, s1) \<and>
    (\<exists>rets s2. exec_calls demo_run [StepWorker 0, CallAddEnv ''A=1''] s1 = Done (rets, s2))"
    by (simp add: demo_simps)
  then obtain s1 rets s2 where
    a: "Start 5 (new_sys 1 demo_rnd demo_heap (0::nat)) = Done (None, s1)" and
    b: "exec_calls demo_run [StepWorker 0, CallAddEnv ''A=1''] s1 = Done (rets, s2)"
    by blast
  from Start_again_fails [OF a b, of 9] a b show ?thesis by blast
qed

text \<open>
  C5. On a started pool \<open>AddEnv\<close> returns the error "can not set env after jobs have
  started" and changes nothing (the list of settings and every command keep their
  values); on a pool not yet started it appends the setting and returns no error.
\<close>

theorem AddEnv_gated_by_inputClosed:
  "(inputClosed (pool s) \<longrightarrow>
      AddEnv x (pool s) = (Some ''can not set env after jobs have started'', pool s) \<and>
      exec_call run (CallAddEnv x) s =
        Done (RetErr (Some ''can not set env after jobs have started''), s)) \<and>
   (\<not> inputClosed (pool s) \<longrightarrow>
      AddEnv x (pool s) = (None, (pool s)\<lparr>cmdEnv := cmdEnv (pool s) @ [x]\<rparr>) \<and>
      exec_call run (CallAddEnv x) s =
        Done (RetErr None, s\<lparr>pool := (pool s)\<lparr>cmdEnv := cmdEnv (pool s) @ [x]\<rparr>\<rparr>))"
  by (simp add: AddEnv_def exec_call_def)

theorem AddEnv_gated_by_inputClosed_witness:
  "(\<exists>r s1. Start 5 (new_sys 1 demo_rnd demo_heap (0::nat)) = Done (r, s1) \<and>
      inputClosed (pool s1) \<and>
      exec_call demo_run (CallAddEnv ''A=1'') s1 =
        Done (RetErr (Some ''can not set env after jobs have started''), s1)) \<and>
   AddEnv ''A=1'' (pool (new_sys 1 demo_rnd demo_heap (0::nat))) =
     (None, (pool (new_sys 1 demo_rnd demo_heap (0::nat)))\<lparr>cmdEnv := [''A=1'']\<rparr>)"
proof -
  have "\<exists>r s1. Start 5 (new_sys 1 demo_rnd demo_heap (0::nat)) = Done (r, s1) \<and>
      inputClosed (pool s1)"
    by (simp add: demo_simps)
  then obtain r s1 where a: "Start 5 (new_sys 1 demo_rnd demo_heap (0::nat)) = Done (r, s1)"
    and b: "inputClosed (pool s1)"
    by blast
  from AddEnv_gated_by_inputClosed [of s1 "''A=1''" demo_run] b
  have c: "exec_call demo_run (CallAddEnv ''A=1'') s1 =
        Done (RetErr (Some ''can not set env after jobs have started''), s1)"
    by blast
  have d: "\<not> inputClosed (pool (new_sys 1 demo_rnd demo_heap (0::nat)))"
    and e: "cmdEnv (pool (new_sys 1 demo_rnd demo_heap (0::nat))) = []"
    by (simp_all add: new_sys_def NewExecPool_def)
  from AddEnv_gated_by_inputClosed [of "new_sys 1 demo_rnd demo_heap (0::nat)" "''A=1''" demo_run] d
  have "AddEnv ''A=1'' (pool (new_sys 1 demo_rnd demo_heap (0::nat))) =
     (None, (pool (new_sys 1 demo_rnd demo_heap (0::nat)))
        \<lparr>cmdEnv := cmdEnv (pool (new_sys 1 demo_rnd demo_heap (0::nat))) @ [''A=1'']\<rparr>)"
    by blast
  with e have f: "AddEnv ''A=1'' (pool (new_sys 1 demo_rnd demo_heap (0::nat))) =
     (None, (pool (new_sys 1 demo_rnd demo_heap (0::nat)))\<lparr>cmdEnv := [''A=1'']\<rparr>)"
    by simp
  from a b c f show ?thesis by blast
qed

lemma exec_call_unstarted:
  assumes "exec_call run c s = Done (r, s')" and "\<not> inputClosed (pool s)"
    and "\<forall>t. c \<noteq> CallStart t"
  shows "\<not> inputClosed (pool s')"
proof (cases c)
  case (CallStart now)
  with assms(3) show ?thesis by simp
next
  case (StepWorker i)
  with assms have "worker_step run i s = Done s'"
    by (auto simp: exec_call_def split: outcome.splits)
  from worker_step_frame(1) [OF this] assms(2) show ?thesis by simp
qed (use assms in \<open>auto simp: exec_call_def AddCommand_def AddEnv_def Wait_def Let_def
      split: outcome.splits prod.splits if_splits option.splits\<close>)

lemma exec_calls_unstarted:
  "exec_calls run cs s = Done (rets, s') \<Longrightarrow> \<not> inputClosed (pool s) \<Longrightarrow>
   \<forall>t. CallStart t \<notin> set cs \<Longrightarrow> \<not> inputClosed (pool s')"
proof (induction cs arbitrary: s rets)
  case Nil
  then show ?case by simp
next
  case (Cons c cs)
  from Cons.prems(1) obtain r s1 rs where c: "exec_call run c s = Done (r, s1)"
    and cs: "exec_calls run cs s1 = Done (rs, s')"
    by (rule exec_calls_Cons_Done)
  from Cons.prems(3) have "\<forall>t. c \<noteq> CallStart t" and rest: "\<forall>t. CallStart t \<notin> set cs"
    by auto
  from exec_call_unstarted [OF c Cons.prems(2) this(1)] Cons.IH [OF cs _ rest]
  show ?case by simp
qed

text \<open>
  C6. On a pool on which \<open>Start\<close> was never called, \<open>Wait\<close> returns at once (it neither
  blocks nor panics) with the error "attempting to wait for jobs that have not started",
  and the state, with the result store and both timestamps, is unchanged.
\<close>

theorem Wait_before_Start_fails:
  assumes "\<forall>t. CallStart t \<notin> set cs"
    and "exec_calls run cs (new_sys n rnd h w) = Done (rets, s)"
  shows "Wait now (pool s) =
           Done (Some ''attempting to wait for jobs that have not started'', pool s) \<and>
         exec_call run (CallWait now) s =
           Done (RetErr (Some ''attempting to wait for jobs that have not started''), s)"
proof -
  have "\<not> inputClosed (pool (new_sys n rnd h w))"
    by (simp add: new_sys_def NewExecPool_def)
  from exec_calls_unstarted [OF assms(2) this assms(1)] show ?thesis
    by (simp add: Wait_def exec_call_def)
qed

theorem Wait_before_Start_fails_witness:
  "\<exists>rets s.
     exec_calls demo_run [CallAddCommand (Some 0) ''2023-01-01T00:00:00Z'', CallAddEnv ''A=1'']
       (new_sys 2 demo_rnd demo_heap (0::nat)) = Done (rets, s) \<and>
     Wait 7 (pool s) = Done (Some ''attempting to wait for jobs that have not started'', pool s)"
proof -
  have "\<exists>rets s.
     exec_calls demo_run [CallAddCommand (Some 0) ''2023-01-01T00:00:00Z'', CallAddEnv ''A=1'']
       (new_sys 2 demo_rnd demo_heap (0::nat)) = Done (rets, s)"
    by (simp add: demo_simps)
  then obtain rets s where
    a: "exec_calls demo_run [CallAddCommand (Some 0) ''2023-01-01T00:00:00Z'', CallAddEnv ''A=1'']
       (new_sys 2 demo_rnd demo_heap (0::nat)) = Done (rets, s)"
    by blast
  have b: "\<forall>t. CallStart t \<notin> set [CallAddCommand (Some 0) ''2023-01-01T00:00:00Z'', CallAddEnv ''A=1'']"
    by simp
  from Wait_before_Start_fails [OF b a, of 7] a show ?thesis by blast
qed

section \<open>Job identifiers\<close>


lemma digit_cases:
  assumes "d < 10"
  shows "d \<in> {0, 1, 2, 3, 4, 5, 6, 7, 8, 9::nat}"
  using assms by auto

lemma digit_val_digit: "d < 10 \<Longrightarrow> digit_val (digit d) = d"
  using digit_cases [of d] by (auto simp: digit_val_def digit_def)

lemma digit_in_digits: "d < 10 \<Longrightarrow> digit d \<in> set ''0123456789''"
  using digit_cases [of d] by (auto simp: digit_def)

lemma dec_val_snoc: "dec_val (s @ [c]) = 10 * dec_val s + digit_val c"
  by (simp add: dec_val_def)

lemma dec_val_digits10: "dec_val (digits10 n) = n"
proof (induction n rule: digits10.induct)
  case (1 n)
  show ?case
  proof (cases "n < 10")
    case True
    then show ?thesis
      by (simp add: digits10.simps [of n] dec_val_def digit_val_digit)
  next
    case False
    with 1 have "dec_val (digits10 (n div 10)) = n div 10" by simp
    with False show ?thesis
      by (simp add: digits10.simps [of n] dec_val_snoc digit_val_digit)
  qed
qed

lemma set_digits10: "set (digits10 n) \<subseteq> set ''0123456789''"
proof (induction n rule: digits10.induct)
  case (1 n)
  show ?case
  proof (cases "n < 10")
    case True
    then show ?thesis
      using digit_in_digits [of n] by (simp add: digits10.simps [of n])
  next
    case False
    with 1 have "set (digits10 (n div 10)) \<subseteq> set ''0123456789''" by simp
    moreover have "digit (n mod 10) \<in> set ''0123456789''"
      by (rule digit_in_digits) simp
    ultimately show ?thesis
      using False by (simp add: digits10.simps [of n])
  qed
qed

lemma dec_val_zeros: "dec_val (replicate k (CHR ''0'') @ s) = dec_val s"
proof -
  have "foldl (\<lambda>acc c. 10 * acc + digit_val c) 0 (replicate k (CHR ''0'')) = 0"
    by (induction k) (simp_all add: digit_val_def)
  then show ?thesis by (simp add: dec_val_def)
qed

lemma dec_val_fmt012d: "dec_val (fmt012d (int n)) = n"
  by (simp add: fmt012d_def zero_pad_def dec_val_zeros dec_val_digits10)

lemma set_fmt012d: "set (fmt012d (int n)) \<subseteq> set ''0123456789''"
  using set_digits10 [of n] by (auto simp: fmt012d_def zero_pad_def)

lemma dash_notin_fmt012d: "CHR ''-'' \<notin> set (fmt012d (int n))"
  using set_fmt012d [of n] by auto

lemma length_fmt012d: "12 \<le> length (fmt012d (int n))"
  by (simp add: fmt012d_def zero_pad_def)

lemma takeWhile_upto:
  "a \<notin> set zs \<Longrightarrow> takeWhile (\<lambda>c. c \<noteq> a) (zs @ a # ws) = zs"
  by (induction zs) auto

lemma last_field_unique:
  assumes "xs @ a # ys = xs' @ a # ys'" and "a \<notin> set ys" and "a \<notin> set ys'"
  shows "ys = ys'"
proof -
  have "takeWhile (\<lambda>c. c \<noteq> a) (rev (xs @ a # ys)) = rev ys"
    using assms(2) by (simp add: takeWhile_upto)
  moreover have "takeWhile (\<lambda>c. c \<noteq> a) (rev (xs' @ a # ys')) = rev ys'"
    using assms(3) by (simp add: takeWhile_upto)
  ultimately have "rev ys = rev ys'" using assms(1) by simp
  then show ?thesis by simp
qed

lemma job_id_sequence_unique:
  assumes "job_id t1 (int n1) pid = job_id t2 (int n2) pid"
  shows "n1 = n2"
proof -
  from assms have "t1 @ CHR ''-'' # fmt012d (int n1) = t2 @ CHR ''-'' # fmt012d (int n2)"
    by (simp add: job_id_def)
  then have "fmt012d (int n1) = fmt012d (int n2)"
    by (rule last_field_unique) (rule dash_notin_fmt012d)+
  then have "dec_val (fmt012d (int n1)) = dec_val (fmt012d (int n2))" by simp
  then show ?thesis by (simp add: dec_val_fmt012d)
qed

lemma length_RandomString: "length (RandomString rnd n) = n"
  by (simp add: RandomString_def)

lemma set_RandomString: "set (RandomString rnd n) \<subseteq> set letters"
proof -
  have "length letters = 62" by (simp add: letters_def)
  then have "\<And>r. Intn (length letters) r < length letters"
    by (simp add: Intn_def)
  then show ?thesis by (auto simp: RandomString_def)
qed

text \<open>
  C7. \<open>AddCommand\<close> has no failure: on every pool (started or not, whatever the number of
  executors) and every command it returns an identifier and the pool with one more
  request at the end of the queue. The request carries the command, the sequence number
  \<open>len(cmdQueue)\<close> and the identifier; the identifier is the clock reading, the sequence
  number in at least 12 decimal digits (from which it can be read back) and the pool
  identifier, joined by dashes.
\<close>

theorem AddCommand_enqueues:
  "fst (AddCommand cmd now e) = job_id now (int (length (cmdQueue e))) (poolId e) \<and>
   snd (AddCommand cmd now e) =
     e\<lparr>cmdQueue := cmdQueue e @
          [\<lparr>jobSequence = int (length (cmdQueue e)),
            jobId = job_id now (int (length (cmdQueue e))) (poolId e),
            command = cmd\<rparr>]\<rparr> \<and>
   length (cmdQueue (snd (AddCommand cmd now e))) = length (cmdQueue e) + 1 \<and>
   exec_call run (CallAddCommand cmd now) s =
     Done (RetId (fst (AddCommand cmd now (pool s))), s\<lparr>pool := snd (AddCommand cmd now (pool s))\<rparr>) \<and>
   job_id now (int (length (cmdQueue e))) (poolId e) =
     now @ ''-'' @ fmt012d (int (length (cmdQueue e))) @ ''-'' @ poolId e \<and>
   dec_val (fmt012d (int (length (cmdQueue e)))) = length (cmdQueue e) \<and>
   12 \<le> length (fmt012d (int (length (cmdQueue e))))"
  by (simp add: AddCommand_def Let_def exec_call_def job_id_def dec_val_fmt012d length_fmt012d)

theorem AddCommand_enqueues_witness:
  "fst (AddCommand (Some 0) ''2023-01-01T00:00:00Z'' (NewExecPool 0 demo_rnd)) =
     ''2023-01-01T00:00:00Z-000000000000-'' @ RandomString demo_rnd 12 \<and>
   length (cmdQueue (snd (AddCommand (Some 0) ''2023-01-01T00:00:00Z'' (NewExecPool 0 demo_rnd)))) = 1"
proof -
  let ?e = "NewExecPool 0 demo_rnd"
  let ?t = "''2023-01-01T00:00:00Z''"
  from AddCommand_enqueues [of "Some 0" ?t ?e demo_run "new_sys 0 demo_rnd demo_heap (0::nat)"]
  have a: "fst (AddCommand (Some 0) ?t ?e) = job_id ?t (int (length (cmdQueue ?e))) (poolId ?e)"
    and b: "length (cmdQueue (snd (AddCommand (Some 0) ?t ?e))) = length (cmdQueue ?e) + 1"
    by simp_all
  have q: "cmdQueue ?e = []" "poolId ?e = RandomString demo_rnd 12"
    by (simp_all add: NewExecPool_def)
  have j: "job_id ?t 0 (RandomString demo_rnd 12) =
             ''2023-01-01T00:00:00Z-000000000000-'' @ RandomString demo_rnd 12"
    by (simp add: job_id_def fmt012d_def zero_pad_def digits10.simps digit_def eval_nat_numeral)
  from a b q j show ?thesis by simp
qed

lemma exec_call_frame:
  assumes "exec_call run c s = Done (r, s')"
  shows "poolId (pool s') = poolId (pool s) \<and> executors (pool s') = executors (pool s) \<and>
         cmdQueue (pool s') = cmdQueue (pool s) @
           (case c of
              CallAddCommand a t \<Rightarrow>
                [\<lparr>jobSequence = int (length (cmdQueue (pool s))),
                  jobId = job_id t (int (length (cmdQueue (pool s)))) (poolId (pool s)),
                  command = a\<rparr>]
            | _ \<Rightarrow> [])"
proof (cases c)
  case (CallStart now)
  with assms obtain err where "Start now s = Done (err, s')"
    by (auto simp: exec_call_def split: outcome.splits prod.splits)
  from Start_Done [OF this] CallStart show ?thesis by auto
next
  case (StepWorker i)
  with assms have "worker_step run i s = Done s'"
    by (auto simp: exec_call_def split: outcome.splits)
  from worker_step_frame [OF this] StepWorker show ?thesis by simp
qed (use assms in \<open>auto simp: exec_call_def AddCommand_def AddEnv_def Wait_def Let_def
      split: outcome.splits prod.splits if_splits option.splits\<close>)

lemma exec_call_AddCommand:
  "exec_call run (CallAddCommand a t) s = Done (r, s') \<Longrightarrow>
   r = RetId (job_id t (int (length (cmdQueue (pool s)))) (poolId (pool s)))"
  by (auto simp: exec_call_def AddCommand_def Let_def)

lemma exec_calls_frame:
  "exec_calls run cs s = Done (rets, s') \<Longrightarrow>
   poolId (pool s') = poolId (pool s) \<and> executors (pool s') = executors (pool s) \<and>
   length (cmdQueue (pool s)) \<le> length (cmdQueue (pool s'))"
proof (induction cs arbitrary: s rets)
  case Nil
  then show ?case by simp
next
  case (Cons c cs)
  from Cons.prems(1) obtain r s1 rs where c: "exec_call run c s = Done (r, s1)"
    and cs: "exec_calls run cs s1 = Done (rs, s')"
    by (rule exec_calls_Cons_Done)
  from exec_call_frame [OF c] Cons.IH [OF cs] show ?case by auto
qed

text \<open>
  C8. In any run of a pool made by \<open>NewExecPool\<close>, two different \<open>AddCommand\<close> calls
  return different identifiers: the later one carries a larger sequence number, and the
  identifier determines its sequence number whatever the clock readings are. The pool
  identifier in them is the string \<open>RandomString(12)\<close> made at construction: 12 characters,
  each one of \<open>letters\<close>, and no call changes it.
\<close>

theorem job_ids_unique:
  assumes "exec_calls run (cs1 @ CallAddCommand a1 t1 # cs2 @ CallAddCommand a2 t2 # cs3)
             (new_sys n rnd h w) = Done (rets, s)"
  shows "rets ! length cs1 \<noteq> rets ! Suc (length cs1 + length cs2) \<and>
         (\<exists>k1 k2. k1 < k2 \<and>
            rets ! length cs1 = RetId (job_id t1 (int k1) (RandomString rnd 12)) \<and>
            rets ! Suc (length cs1 + length cs2) = RetId (job_id t2 (int k2) (RandomString rnd 12))) \<and>
         poolId (pool s) = RandomString rnd 12 \<and>
         length (RandomString rnd 12) = 12 \<and>
         set (RandomString rnd 12) \<subseteq> set letters"
proof -
  let ?pid = "RandomString rnd 12"
  have pid0: "poolId (pool (new_sys n rnd h w)) = ?pid"
    by (simp add: new_sys_def NewExecPool_def)
  from assms obtain r1 sA rest1 where
    A: "exec_calls run cs1 (new_sys n rnd h w) = Done (r1, sA)" and
    rest1: "exec_calls run (CallAddCommand a1 t1 # cs2 @ CallAddCommand a2 t2 # cs3) sA = Done (rest1, s)" and
    rets1: "rets = r1 @ rest1"
    by (rule exec_calls_append_Done)
  from rest1 obtain x1 sB rest2 where
    B: "exec_call run (CallAddCommand a1 t1) sA = Done (x1, sB)" and
    rest2: "exec_calls run (cs2 @ CallAddCommand a2 t2 # cs3) sB = Done (rest2, s)" and
    rets2: "rest1 = x1 # rest2"
    by (rule exec_calls_Cons_Done)
  from rest2 obtain r2 sC rest3 where
    C: "exec_calls run cs2 sB = Done (r2, sC)" and
    rest3: "exec_calls run (CallAddCommand a2 t2 # cs3) sC = Done (rest3, s)" and
    rets3: "rest2 = r2 @ rest3"
    by (rule exec_calls_append_Done)
  from rest3 obtain x2 sD r3 where
    D: "exec_call run (CallAddCommand a2 t2) sC = Done (x2, sD)" and
    E: "exec_calls run cs3 sD = Done (r3, s)" and
    rets4: "rest3 = x2 # r3"
    by (rule exec_calls_Cons_Done)
  define k1 where "k1 = length (cmdQueue (pool sA))"
  define k2 where "k2 = length (cmdQueue (pool sC))"
  have pidA: "poolId (pool sA) = ?pid"
    using exec_calls_frame [OF A] pid0 by simp
  have pidB: "poolId (pool sB) = ?pid" and lenB: "length (cmdQueue (pool sB)) = Suc k1"
    using exec_call_frame [OF B] pidA by (simp_all add: k1_def)
  have pidC: "poolId (pool sC) = ?pid" and lenC: "Suc k1 \<le> k2"
    using exec_calls_frame [OF C] pidB lenB by (simp_all add: k2_def)
  have pidD: "poolId (pool sD) = ?pid"
    using exec_call_frame [OF D] pidC by simp
  have pidE: "poolId (pool s) = ?pid"
    using exec_calls_frame [OF E] pidD by simp
  have x1: "x1 = RetId (job_id t1 (int k1) ?pid)"
    using exec_call_AddCommand [OF B] pidA by (simp add: k1_def)
  have x2: "x2 = RetId (job_id t2 (int k2) ?pid)"
    using exec_call_AddCommand [OF D] pidC by (simp add: k2_def)
  have l1: "length r1 = length cs1" by (rule exec_calls_length [OF A])
  have l2: "length r2 = length cs2" by (rule exec_calls_length [OF C])
  have n1: "rets ! length cs1 = x1"
    using l1 by (simp add: rets1 rets2 nth_append)
  have n2: "rets ! Suc (length cs1 + length cs2) = x2"
    using l1 l2 by (simp add: rets1 rets2 rets3 rets4 nth_append)
  have lt: "k1 < k2" using lenC by simp
  have "job_id t1 (int k1) ?pid \<noteq> job_id t2 (int k2) ?pid"
    using job_id_sequence_unique [of t1 k1 ?pid t2 k2] lt by auto
  with n1 n2 x1 x2 lt pidE show ?thesis
    using length_RandomString [of rnd 12] set_RandomString [of rnd 12] by auto
qed

theorem job_ids_unique_witness:
  "\<exists>rets s.
     exec_calls demo_run
       ([] @ CallAddCommand (Some 0) ''2023-01-01T00:00:00Z'' #
        [CallStart 3] @ CallAddCommand (Some 1) ''2023-01-01T00:00:00Z'' # [])
       (new_sys 2 demo_rnd demo_heap (0::nat)) = Done (rets, s) \<and>
     rets ! 0 \<noteq> rets ! Suc (Suc 0) \<and> length (poolId (pool s)) = 12"
proof -
  have "\<exists>rets s.
     exec_calls demo_run
       ([] @ CallAddCommand (Some 0) ''2023-01-01T00:00:00Z'' #
        [CallStart 3] @ CallAddCommand (Some 1) ''2023-01-01T00:00:00Z'' # [])
       (new_sys 2 demo_rnd demo_heap (0::nat)) = Done (rets, s)"
    by (simp add: demo_simps)
  then obtain rets s where a: "exec_calls demo_run
       ([] @ CallAddCommand (Some 0) ''2023-01-01T00:00:00Z'' #
        [CallStart 3] @ CallAddCommand (Some 1) ''2023-01-01T00:00:00Z'' # [])
       (new_sys 2 demo_rnd demo_heap (0::nat)) = Done (rets, s)"
    by blast
  from job_ids_unique [OF a] have "rets ! 0 \<noteq> rets ! Suc (Suc 0) \<and> length (poolId (pool s)) = 12"
    by simp
  with a show ?thesis by blast
qed

section \<open>Steps of a worker\<close>


lemma worker_step_DoneE:
  assumes "worker_step run i s = Done s'"
  obtains
    (recv) c job rest where "i < length (workers s)" and "workers s ! i = Receiving"
      and "workerChanIn (pool s) = Some c" and "buf c = job # rest"
      and "s' = s\<lparr>pool := (pool s)\<lparr>workerChanIn := Some (c\<lparr>buf := rest\<rparr>)\<rparr>,
                   workers := (workers s)[i := Running job]\<rparr>"
  | (exit) c where "i < length (workers s)" and "workers s ! i = Receiving"
      and "workerChanIn (pool s) = Some c" and "buf c = []" and "chanClosed c"
      and "0 < waitGroup (pool s)"
      and "s' = s\<lparr>pool := (pool s)\<lparr>waitGroup := waitGroup (pool s) - 1\<rparr>,
                   workers := (workers s)[i := Exited]\<rparr>"
  | (run) job a where "i < length (workers s)" and "workers s ! i = Running job"
      and "command job = Some a"
      and "s' = s\<lparr>heap := (heap s)(a := (heap s a)\<lparr>ProcessState :=
                              procState (snd (run (world s) (heap s a)))\<rparr>),
                   world := fst (run (world s) (heap s a)),
                   runs := runs s @ [a],
                   workers := (workers s)[i := Sending (make_result job
                                (snd (run (world s) (heap s a))))]\<rparr>"
  | (send) c res where "i < length (workers s)" and "workers s ! i = Sending res"
      and "workerChanOut (pool s) = Some c" and "\<not> chanClosed c"
      and "length (buf c) < cap c"
      and "s' = s\<lparr>pool := (pool s)\<lparr>workerChanOut := Some (c\<lparr>buf := buf c @ [res]\<rparr>)\<rparr>,
                   workers := (workers s)[i := Receiving]\<rparr>"
proof -
  from assms have i: "i < length (workers s)"
    by (auto simp: worker_step_def split: if_splits)
  show ?thesis
  proof (cases "workers s ! i")
    case Receiving
    with assms i obtain c where c: "workerChanIn (pool s) = Some c"
      by (auto simp: worker_step_def split: option.splits)
    show ?thesis
    proof (cases "buf c")
      case Nil
      with assms i Receiving c show ?thesis
        by (intro exit [of c]) (auto simp: worker_step_def chan_recv_def split: if_splits)
    next
      case (Cons job rest)
      with assms i Receiving c show ?thesis
        by (intro recv [of c job rest]) (auto simp: worker_step_def chan_recv_def)
    qed
  next
    case (Running job)
    with assms i obtain a where a: "command job = Some a"
      by (auto simp: worker_step_def split: option.splits)
    with assms i Running show ?thesis
      by (intro run [of job a]) (auto simp: worker_step_def split: prod.splits)
  next
    case (Sending res)
    with assms i obtain c where c: "workerChanOut (pool s) = Some c"
      by (auto simp: worker_step_def split: option.splits)
    with assms i Sending show ?thesis
      by (intro send [of res c]) (auto simp: worker_step_def chan_send_def split: if_splits)
  next
    case Exited
    with assms i show ?thesis by (simp add: worker_step_def)
  qed
qed

section \<open>The result store\<close>


lemma in_set_update: "w \<in> set (ws[i := x]) \<Longrightarrow> w = x \<or> w \<in> set ws"
  using set_update_subset_insert [of ws i x] by auto

lemma worker_step_zero_seq:
  assumes "worker_step run i s = Done s'" and "zero_seq s"
  shows "zero_seq s'"
  using assms(1)
proof (cases rule: worker_step_DoneE)
  case (recv c job rest)
  with assms(2) show ?thesis
    by (auto simp: zero_seq_def split: option.splits dest!: in_set_update)
next
  case (exit c)
  with assms(2) show ?thesis
    by (auto simp: zero_seq_def split: option.splits dest!: in_set_update)
next
  case (run job a)
  with assms(2) show ?thesis
    by (auto simp: zero_seq_def make_result_def split: option.splits dest!: in_set_update)
next
  case (send c res)
  from send(1,2) have "Sending res \<in> set (workers s)"
    by (metis nth_mem)
  with assms(2) have "JobSequence res = 0" by (simp add: zero_seq_def)
  with send assms(2) show ?thesis
    by (auto simp: zero_seq_def split: option.splits dest!: in_set_update)
qed

lemma exec_call_zero_seq:
  assumes "exec_call run c s = Done (r, s')" and "zero_seq s"
  shows "zero_seq s'"
proof (cases c)
  case (CallStart now)
  with assms obtain err where "Start now s = Done (err, s')"
    by (auto simp: exec_call_def split: outcome.splits prod.splits)
  from Start_Done [OF this] assms(2) show ?thesis
    by (auto simp: zero_seq_def make_chan_def)
next
  case (StepWorker i)
  with assms have "worker_step run i s = Done s'"
    by (auto simp: exec_call_def split: outcome.splits)
  from worker_step_zero_seq [OF this assms(2)] show ?thesis .
next
  case (CallWait now)
  with assms show ?thesis
    by (auto simp: exec_call_def Wait_def zero_seq_def chan_close_def collect_append
        split: outcome.splits prod.splits if_splits option.splits)
qed (use assms in \<open>auto simp: exec_call_def AddCommand_def AddEnv_def Let_def zero_seq_def
      split: outcome.splits prod.splits if_splits option.splits\<close>)

lemma exec_calls_zero_seq:
  "exec_calls run cs s = Done (rets, s') \<Longrightarrow> zero_seq s \<Longrightarrow> zero_seq s'"
proof (induction cs arbitrary: s rets)
  case Nil
  then show ?case by simp
next
  case (Cons c cs)
  from Cons.prems(1) obtain r s1 rs where c: "exec_call run c s = Done (r, s1)"
    and cs: "exec_calls run cs s1 = Done (rs, s')"
    by (rule exec_calls_Cons_Done)
  from exec_call_zero_seq [OF c Cons.prems(2)] Cons.IH [OF cs] show ?case by simp
qed

lemma new_sys_zero_seq: "zero_seq (new_sys n rnd h w)"
  by (simp add: zero_seq_def new_sys_def NewExecPool_def)

lemma scan_find: "scan rs jid = find (\<lambda>r. JobId r = jid) rs"
  by (induction rs) simp_all

lemma scan_None: "scan rs jid = None \<longleftrightarrow> jid \<notin> JobId ` set rs"
  by (induction rs) auto

lemma scan_Some: "scan rs jid = Some r \<Longrightarrow> r \<in> set rs \<and> JobId r = jid"
  by (induction rs) (auto split: if_splits)

text \<open>
  C10. In every run of a pool made by \<open>NewExecPool\<close>, every result in the store has
  \<open>JobSequence\<close> 0, whatever the sequence number of its request was, and so has every
  result that \<open>GetResults\<close> returns: the worker copies the identifier of the job and leaves
  the sequence number at its zero value.
\<close>

theorem collected_JobSequence_is_zero:
  assumes "exec_calls run cs (new_sys n rnd h w) = Done (rets, s)"
  shows "(\<forall>r\<in>set (cmdOutput (pool s)). JobSequence r = 0) \<and>
         (\<forall>jid r. GetResults (pool s) jid = Some r \<longrightarrow> JobSequence r = 0) \<and>
         JobSequence (make_result job oc) = 0"
proof -
  from exec_calls_zero_seq [OF assms new_sys_zero_seq]
  have "\<forall>r\<in>set (cmdOutput (pool s)). JobSequence r = 0"
    by (simp add: zero_seq_def)
  then show ?thesis
    by (auto simp: GetResults_def make_result_def dest: scan_Some)
qed

theorem collected_JobSequence_is_zero_witness:
  "\<exists>rets s.
     exec_calls demo_run demo_calls (new_sys 1 demo_rnd demo_heap (0::nat)) = Done (rets, s) \<and>
     map jobSequence (cmdQueue (pool s)) = [0, 1] \<and>
     list_all (\<lambda>r. JobSequence r = 0) (cmdOutput (pool s))"
proof -
  from demo_calls_Done obtain rets s where
    a: "exec_calls demo_run demo_calls (new_sys 1 demo_rnd demo_heap (0::nat)) = Done (rets, s)"
    and q: "map jobSequence (cmdQueue (pool s)) = [0, 1]"
    by auto
  from collected_JobSequence_is_zero [OF a]
  have "list_all (\<lambda>r. JobSequence r = 0) (cmdOutput (pool s))"
    by (simp add: list_all_iff)
  with a q show ?thesis by auto
qed

lemma exec_call_cmdOutput:
  assumes "exec_call run c s = Done (r, s')" and "\<forall>t. c \<noteq> CallWait t"
  shows "cmdOutput (pool s') = cmdOutput (pool s)"
proof (cases c)
  case (CallStart now)
  with assms obtain err where "Start now s = Done (err, s')"
    by (auto simp: exec_call_def split: outcome.splits prod.splits)
  from Start_Done [OF this] show ?thesis by auto
next
  case (StepWorker i)
  with assms have "worker_step run i s = Done s'"
    by (auto simp: exec_call_def split: outcome.splits)
  from worker_step_frame(3) [OF this] show ?thesis .
qed (use assms in \<open>auto simp: exec_call_def AddCommand_def AddEnv_def Let_def
      split: outcome.splits prod.splits if_splits option.splits\<close>)

lemma exec_calls_cmdOutput:
  "exec_calls run cs s = Done (rets, s') \<Longrightarrow> \<forall>t. CallWait t \<notin> set cs \<Longrightarrow>
   cmdOutput (pool s') = cmdOutput (pool s)"
proof (induction cs arbitrary: s rets)
  case Nil
  then show ?case by simp
next
  case (Cons c cs)
  from Cons.prems(1) obtain r s1 rs where c: "exec_call run c s = Done (r, s1)"
    and cs: "exec_calls run cs s1 = Done (rs, s')"
    by (rule exec_calls_Cons_Done)
  from Cons.prems(2) have "\<forall>t. c \<noteq> CallWait t" and rest: "\<forall>t. CallWait t \<notin> set cs"
    by auto
  from exec_call_cmdOutput [OF c this(1)] Cons.IH [OF cs rest] show ?case by simp
qed

lemma exec_call_unstarted_inv:
  assumes "exec_call run c s = Done (r, s')" and "unstarted s" and "\<forall>t. c \<noteq> CallStart t"
  shows "unstarted s'"
proof (cases c)
  case (CallStart now)
  with assms(3) show ?thesis by simp
next
  case (StepWorker i)
  with assms(1,2) show ?thesis
    by (simp add: exec_call_def worker_step_def unstarted_def)
qed (use assms in \<open>auto simp: exec_call_def AddCommand_def AddEnv_def Wait_def Let_def
      unstarted_def split: outcome.splits prod.splits if_splits option.splits\<close>)

lemma exec_calls_unstarted_inv:
  "exec_calls run cs s = Done (rets, s') \<Longrightarrow> unstarted s \<Longrightarrow>
   \<forall>t. CallStart t \<notin> set cs \<Longrightarrow> unstarted s'"
proof (induction cs arbitrary: s rets)
  case Nil
  then show ?case by simp
next
  case (Cons c cs)
  from Cons.prems(1) obtain r s1 rs where c: "exec_call run c s = Done (r, s1)"
    and cs: "exec_calls run cs s1 = Done (rs, s')"
    by (rule exec_calls_Cons_Done)
  from Cons.prems(3) have "\<forall>t. c \<noteq> CallStart t" and rest: "\<forall>t. CallStart t \<notin> set cs"
    by auto
  from exec_call_unstarted_inv [OF c Cons.prems(2) this(1)] Cons.IH [OF cs _ rest]
  show ?case by simp
qed

lemma new_sys_unstarted: "unstarted (new_sys n rnd h w)"
  by (simp add: unstarted_def new_sys_def NewExecPool_def)

text \<open>
  C9. \<open>GetResults\<close> scans the result store from the front and returns the first result
  with the identifier asked for, and nothing exactly when no result has it; the state is
  not changed by the call. In a run of a pool made by \<open>NewExecPool\<close> in which \<open>Start\<close> was
  not called, or \<open>Wait\<close> was not called, the store is empty and every lookup returns
  nothing, the lookup of an identifier just returned by \<open>AddCommand\<close> too.
\<close>

theorem GetResults_scans_store:
  assumes "exec_calls run cs (new_sys n rnd h w) = Done (rets, s)"
    and "(\<forall>t. CallStart t \<notin> set cs) \<or> (\<forall>t. CallWait t \<notin> set cs)"
  shows "GetResults (pool s) jid = None \<and>
         GetResults e jid = find (\<lambda>r. JobId r = jid) (cmdOutput e) \<and>
         (GetResults e jid = None \<longleftrightarrow> jid \<notin> JobId ` set (cmdOutput e)) \<and>
         exec_call run (CallGetResults jid) s' =
           Done (RetResult (GetResults (pool s') jid), s')"
proof -
  have "cmdOutput (pool s) = []"
  proof (cases "\<forall>t. CallStart t \<notin> set cs")
    case True
    from exec_calls_unstarted_inv [OF assms(1) new_sys_unstarted True]
    show ?thesis by (simp add: unstarted_def)
  next
    case False
    with assms(2) have "\<forall>t. CallWait t \<notin> set cs" by blast
    from exec_calls_cmdOutput [OF assms(1) this]
    show ?thesis by (simp add: new_sys_def NewExecPool_def)
  qed
  then show ?thesis
    by (simp add: GetResults_def scan_find [symmetric] scan_None exec_call_def)
qed

theorem GetResults_scans_store_witness:
  "\<exists>rets s.
     exec_calls demo_run [CallAddCommand (Some 0) ''2023-01-01T00:00:00Z'', CallStart 4]
       (new_sys 2 demo_rnd demo_heap (0::nat)) = Done (rets, s) \<and>
     GetResults (pool s) (job_id ''2023-01-01T00:00:00Z'' 0 (RandomString demo_rnd 12)) = None"
proof -
  have "\<exists>rets s.
     exec_calls demo_run [CallAddCommand (Some 0) ''2023-01-01T00:00:00Z'', CallStart 4]
       (new_sys 2 demo_rnd demo_heap (0::nat)) = Done (rets, s)"
    by (simp add: demo_simps)
  then obtain rets s where a:
    "exec_calls demo_run [CallAddCommand (Some 0) ''2023-01-01T00:00:00Z'', CallStart 4]
       (new_sys 2 demo_rnd demo_heap (0::nat)) = Done (rets, s)"
    by blast
  have b: "(\<forall>t. CallStart t \<notin> set [CallAddCommand (Some 0) ''2023-01-01T00:00:00Z'', CallStart 4]) \<or>
           (\<forall>t. CallWait t \<notin> set [CallAddCommand (Some 0) ''2023-01-01T00:00:00Z'', CallStart 4])"
    by simp
  from GetResults_scans_store [OF a b, of "job_id ''2023-01-01T00:00:00Z'' 0 (RandomString demo_rnd 12)"
      "pool s" s]
  have "GetResults (pool s) (job_id ''2023-01-01T00:00:00Z'' 0 (RandomString demo_rnd 12)) = None"
    by blast
  with a show ?thesis by blast
qed

section \<open>Between Start and Wait\<close>


lemma sum_list_map_update:
  fixes f :: "'a \<Rightarrow> 'b::cancel_comm_monoid_add"
  shows "i < length ws \<Longrightarrow>
         sum_list (map f (ws[i := x])) + f (ws ! i) = sum_list (map f ws) + f x"
proof (induction ws arbitrary: i)
  case Nil
  then show ?case by simp
next
  case (Cons w ws)
  show ?case
  proof (cases i)
    case 0
    then show ?thesis by (simp add: ac_simps)
  next
    case (Suc j)
    with Cons.prems have "j < length ws" by simp
    from Cons.IH [OF this] Suc show ?thesis by (simp add: ac_simps)
  qed
qed

lemma runningE:
  assumes "running Q s"
  obtains cin cout where "workerChanIn (pool s) = Some cin"
    and "workerChanOut (pool s) = Some cout"
    and "inputClosed (pool s)" and "cmdQueue (pool s) = Q" and "cmdOutput (pool s) = []"
    and "waitGroup (pool s) = int (sum_list (map alive (workers s)))"
    and "length (workers s) = nat (executors (pool s))"
    and "chanClosed cin" and "\<not> chanClosed cout" and "cap cout = length Q"
    and "mset (map jobId (buf cin)) + sum_list (map holds_ids (workers s)) +
           mset (map JobId (buf cout)) = mset (map jobId Q)"
    and "mset (map command (buf cin)) + sum_list (map holds_cmds (workers s)) +
           mset (map Some (runs s)) = mset (map command Q)"
    and "Exited \<in> set (workers s) \<longrightarrow> buf cin = []"
  using assms unfolding running_def by (auto split: option.splits)

lemma runningI:
  assumes "workerChanIn (pool s) = Some cin"
    and "workerChanOut (pool s) = Some cout"
    and "inputClosed (pool s)" and "cmdQueue (pool s) = Q" and "cmdOutput (pool s) = []"
    and "waitGroup (pool s) = int (sum_list (map alive (workers s)))"
    and "length (workers s) = nat (executors (pool s))"
    and "chanClosed cin" and "\<not> chanClosed cout" and "cap cout = length Q"
    and "mset (map jobId (buf cin)) + sum_list (map holds_ids (workers s)) +
           mset (map JobId (buf cout)) = mset (map jobId Q)"
    and "mset (map command (buf cin)) + sum_list (map holds_cmds (workers s)) +
           mset (map Some (runs s)) = mset (map command Q)"
    and "Exited \<in> set (workers s) \<longrightarrow> buf cin = []"
  shows "running Q s"
  using assms unfolding running_def by auto

lemma worker_step_running:
  assumes step: "worker_step run i s = Done s'" and inv: "running Q s"
  shows "running Q s'"
proof -
  from inv obtain cin cout where
    cin: "workerChanIn (pool s) = Some cin" and
    cout: "workerChanOut (pool s) = Some cout" and
    started: "inputClosed (pool s)" and queue: "cmdQueue (pool s) = Q" and
    store: "cmdOutput (pool s) = []" and
    wg: "waitGroup (pool s) = int (sum_list (map alive (workers s)))" and
    len: "length (workers s) = nat (executors (pool s))" and
    closed: "chanClosed cin" and opened: "\<not> chanClosed cout" and
    room: "cap cout = length Q" and
    ids: "mset (map jobId (buf cin)) + sum_list (map holds_ids (workers s)) +
            mset (map JobId (buf cout)) = mset (map jobId Q)" and
    cmds: "mset (map command (buf cin)) + sum_list (map holds_cmds (workers s)) +
            mset (map Some (runs s)) = mset (map command Q)" and
    drained: "Exited \<in> set (workers s) \<longrightarrow> buf cin = []"
    by (rule runningE) blast
  from step show ?thesis
  proof (cases rule: worker_step_DoneE)
    case (recv c job rest)
    from recv(3) cin have c: "c = cin" by simp
    from sum_list_map_update [OF recv(1), of holds_ids "Running job"] recv(2)
    have h1: "sum_list (map holds_ids ((workers s)[i := Running job])) =
                sum_list (map holds_ids (workers s)) + {#jobId job#}"
      by simp
    from sum_list_map_update [OF recv(1), of holds_cmds "Running job"] recv(2)
    have h2: "sum_list (map holds_cmds ((workers s)[i := Running job])) =
                sum_list (map holds_cmds (workers s)) + {#command job#}"
      by simp
    from sum_list_map_update [OF recv(1), of alive "Running job"] recv(2)
    have h3: "sum_list (map alive ((workers s)[i := Running job])) =
                sum_list (map alive (workers s))"
      by simp
    from drained recv(4) c have noexit: "Exited \<notin> set (workers s)" by auto
    show ?thesis
    proof (rule runningI [of s' "cin\<lparr>buf := rest\<rparr>" cout])
      show "mset (map jobId (buf (cin\<lparr>buf := rest\<rparr>))) + sum_list (map holds_ids (workers s')) +
              mset (map JobId (buf cout)) = mset (map jobId Q)"
        using ids recv(4,5) c h1 by (simp add: ac_simps)
      show "mset (map command (buf (cin\<lparr>buf := rest\<rparr>))) + sum_list (map holds_cmds (workers s')) +
              mset (map Some (runs s')) = mset (map command Q)"
        using cmds recv(4,5) c h2 by (simp add: ac_simps)
      show "Exited \<in> set (workers s') \<longrightarrow> buf (cin\<lparr>buf := rest\<rparr>) = []"
        using noexit recv(5) by (auto dest: in_set_update)
    qed (use recv c cout started queue store wg len closed opened room h3 in simp_all)
  next
    case (exit c)
    from exit(3) cin have c: "c = cin" by simp
    from sum_list_map_update [OF exit(1), of holds_ids Exited] exit(2)
    have h1: "sum_list (map holds_ids ((workers s)[i := Exited])) =
                sum_list (map holds_ids (workers s))"
      by simp
    from sum_list_map_update [OF exit(1), of holds_cmds Exited] exit(2)
    have h2: "sum_list (map holds_cmds ((workers s)[i := Exited])) =
                sum_list (map holds_cmds (workers s))"
      by simp
    from sum_list_map_update [OF exit(1), of alive Exited] exit(2)
    have h3: "sum_list (map alive ((workers s)[i := Exited])) + 1 =
                sum_list (map alive (workers s))"
      by simp
    show ?thesis
    proof (rule runningI [of s' cin cout])
      show "waitGroup (pool s') = int (sum_list (map alive (workers s')))"
        using wg exit(7) h3 by simp
      show "Exited \<in> set (workers s') \<longrightarrow> buf cin = []"
        using exit(4) c by simp
    qed (use exit c cin cout started queue store len closed opened room ids cmds h1 h2 in simp_all)
  next
    case (run job a)
    let ?res = "make_result job (snd (run (world s) (heap s a)))"
    from sum_list_map_update [OF run(1), of holds_ids "Sending ?res"] run(2)
    have h1: "sum_list (map holds_ids ((workers s)[i := Sending ?res])) =
                sum_list (map holds_ids (workers s))"
      by (simp add: make_result_def)
    from sum_list_map_update [OF run(1), of holds_cmds "Sending ?res"] run(2,3)
    have h2: "sum_list (map holds_cmds ((workers s)[i := Sending ?res])) + {#Some a#} =
                sum_list (map holds_cmds (workers s))"
      by simp
    from sum_list_map_update [OF run(1), of alive "Sending ?res"] run(2)
    have h3: "sum_list (map alive ((workers s)[i := Sending ?res])) =
                sum_list (map alive (workers s))"
      by simp
    from run(1,2) have "Running job \<in> set (workers s)" by (metis nth_mem)
    show ?thesis
    proof (rule runningI [of s' cin cout])
      show "mset (map command (buf cin)) + sum_list (map holds_cmds (workers s')) +
              mset (map Some (runs s')) = mset (map command Q)"
        using cmds run(4) h2 [symmetric] by (simp add: ac_simps)
      show "Exited \<in> set (workers s') \<longrightarrow> buf cin = []"
        using drained run(4) by (auto dest: in_set_update)
    qed (use run cin cout started queue store wg len closed opened room ids h1 h3 in simp_all)
  next
    case (send c res)
    from send(3) cout have c: "c = cout" by simp
    from sum_list_map_update [OF send(1), of holds_ids Receiving] send(2)
    have h1: "sum_list (map holds_ids ((workers s)[i := Receiving])) + {#JobId res#} =
                sum_list (map holds_ids (workers s))"
      by simp
    from sum_list_map_update [OF send(1), of holds_cmds Receiving] send(2)
    have h2: "sum_list (map holds_cmds ((workers s)[i := Receiving])) =
                sum_list (map holds_cmds (workers s))"
      by simp
    from sum_list_map_update [OF send(1), of alive Receiving] send(2)
    have h3: "sum_list (map alive ((workers s)[i := Receiving])) =
                sum_list (map alive (workers s))"
      by simp
    show ?thesis
    proof (rule runningI [of s' cin "cout\<lparr>buf := buf cout @ [res]\<rparr>"])
      show "mset (map jobId (buf cin)) + sum_list (map holds_ids (workers s')) +
              mset (map JobId (buf (cout\<lparr>buf := buf cout @ [res]\<rparr>))) = mset (map jobId Q)"
        using ids send(6) h1 [symmetric] by (simp add: ac_simps)
      show "Exited \<in> set (workers s') \<longrightarrow> buf cin = []"
        using drained send(6) by (auto dest: in_set_update)
    qed (use send c cin started queue store wg len closed opened room cmds h2 h3 in simp_all)
  qed
qed

lemma numbered_snoc:
  assumes "numbered pid q" and "jobId x = job_id t (int (length q)) pid"
  shows "numbered pid (q @ [x])"
  unfolding numbered_def
proof (intro allI impI)
  fix k
  assume "k < length (q @ [x])"
  then consider "k < length q" | "k = length q" by fastforce
  then show "\<exists>t. jobId ((q @ [x]) ! k) = job_id t (int k) pid"
  proof cases
    case 1
    with assms(1) show ?thesis by (simp add: numbered_def nth_append)
  next
    case 2
    with assms(2) show ?thesis by (auto simp: nth_append)
  qed
qed

lemma numbered_distinct:
  assumes "numbered pid q"
  shows "distinct (map jobId q)"
  unfolding distinct_conv_nth
proof (intro allI impI)
  fix i j
  assume i: "i < length (map jobId q)" and j: "j < length (map jobId q)" and ne: "i \<noteq> j"
  from assms i obtain t1 where t1: "jobId (q ! i) = job_id t1 (int i) pid"
    by (auto simp: numbered_def)
  from assms j obtain t2 where t2: "jobId (q ! j) = job_id t2 (int j) pid"
    by (auto simp: numbered_def)
  from ne job_id_sequence_unique [of t1 i pid t2 j] have "job_id t1 (int i) pid \<noteq> job_id t2 (int j) pid"
    by auto
  with t1 t2 i j show "map jobId q ! i \<noteq> map jobId q ! j" by simp
qed

lemma exec_call_numbered:
  assumes "exec_call run c s = Done (r, s')" and "numbered (poolId (pool s)) (cmdQueue (pool s))"
  shows "numbered (poolId (pool s')) (cmdQueue (pool s'))"
proof (cases c)
  case (CallAddCommand a t)
  with exec_call_frame [OF assms(1)] assms(2) show ?thesis
    by (auto intro!: numbered_snoc)
qed (use exec_call_frame [OF assms(1)] assms(2) in simp_all)

lemma exec_call_ret_ids:
  assumes "exec_call run c s = Done (r, s')"
  shows "map jobId (cmdQueue (pool s')) = map jobId (cmdQueue (pool s)) @ ret_ids [r] \<and>
         map command (cmdQueue (pool s')) = map command (cmdQueue (pool s)) @ added_cmds [c]"
proof (cases c)
  case (CallAddCommand a t)
  with exec_call_frame [OF assms] exec_call_AddCommand [of run a t s r s'] assms
  show ?thesis by simp
next
  case (CallAddEnv x)
  with exec_call_frame [OF assms] assms show ?thesis
    by (auto simp: exec_call_def split: prod.splits)
next
  case (CallStart now)
  with exec_call_frame [OF assms] assms show ?thesis
    by (auto simp: exec_call_def split: outcome.splits prod.splits)
next
  case (CallWait now)
  with exec_call_frame [OF assms] assms show ?thesis
    by (auto simp: exec_call_def split: outcome.splits prod.splits)
next
  case (CallGetResults jid)
  with exec_call_frame [OF assms] assms show ?thesis
    by (auto simp: exec_call_def)
next
  case (StepWorker i)
  with exec_call_frame [OF assms] assms show ?thesis
    by (auto simp: exec_call_def split: outcome.splits)
qed

lemma ret_ids_Cons: "ret_ids (r # rs) = ret_ids [r] @ ret_ids rs"
  by (cases r) simp_all

lemma added_cmds_Cons: "added_cmds (c # cs) = added_cmds [c] @ added_cmds cs"
  by (cases c) simp_all

lemma added_cmds_append: "added_cmds (xs @ ys) = added_cmds xs @ added_cmds ys"
proof (induction xs)
  case Nil
  show ?case by simp
next
  case (Cons c xs)
  then show ?case
    using added_cmds_Cons [of c "xs @ ys"] added_cmds_Cons [of c xs] by simp
qed

lemma added_cmds_none:
  "\<forall>a t. CallAddCommand a t \<notin> set cs \<Longrightarrow> added_cmds cs = []"
proof (induction cs)
  case Nil
  show ?case by simp
next
  case (Cons c cs)
  then show ?case by (cases c) auto
qed

lemma exec_calls_queue:
  "exec_calls run cs s = Done (rets, s') \<Longrightarrow>
   map jobId (cmdQueue (pool s')) = map jobId (cmdQueue (pool s)) @ ret_ids rets \<and>
   map command (cmdQueue (pool s')) = map command (cmdQueue (pool s)) @ added_cmds cs \<and>
   (numbered (poolId (pool s)) (cmdQueue (pool s)) \<longrightarrow>
      numbered (poolId (pool s')) (cmdQueue (pool s')))"
proof (induction cs arbitrary: s rets)
  case Nil
  then show ?case by simp
next
  case (Cons c cs)
  from Cons.prems(1) obtain r s1 rs where c: "exec_call run c s = Done (r, s1)"
    and cs: "exec_calls run cs s1 = Done (rs, s')" and rets: "rets = r # rs"
    by (rule exec_calls_Cons_Done)
  from exec_call_ret_ids [OF c] Cons.IH [OF cs] exec_call_numbered [OF c] rets
  show ?case
    using ret_ids_Cons [of r rs] added_cmds_Cons [of c cs] by simp
qed

lemma sum_list_replicate_empty: "sum_list (replicate k ({#} :: 'a multiset)) = {#}"
  by (induction k) simp_all

lemma sum_list_replicate_one: "sum_list (replicate k (Suc 0)) = k"
  by (induction k) simp_all

lemma Start_running:
  assumes "Start now s = Done (err, s')" and "unstarted s"
  shows "err = None \<and> running (cmdQueue (pool s)) s' \<and> runs s' = []"
proof -
  from assms(2) have u: "\<not> inputClosed (pool s)" "cmdOutput (pool s) = []" "workers s = []"
    "waitGroup (pool s) = 0" "runs s = []"
    by (simp_all add: unstarted_def)
  from Start_Done [OF assms(1)] u(1) obtain h where
    err: "err = None" and
    s': "s' = s\<lparr>pool := (pool s)\<lparr>inputClosed := True,
                     workerChanIn := Some \<lparr>buf = cmdQueue (pool s), cap = length (cmdQueue (pool s)), chanClosed = True\<rparr>,
                     workerChanOut := Some (make_chan (length (cmdQueue (pool s)))),
                     startTime := now,
                     waitGroup := waitGroup (pool s) + int (nat (executors (pool s)))\<rparr>,
                   heap := h,
                   workers := workers s @ replicate (nat (executors (pool s))) Receiving\<rparr>"
    by auto
  have "running (cmdQueue (pool s)) s'"
    by (rule runningI [of s' "\<lparr>buf = cmdQueue (pool s), cap = length (cmdQueue (pool s)), chanClosed = True\<rparr>"
          "make_chan (length (cmdQueue (pool s)))"])
      (simp_all add: s' u make_chan_def sum_list_replicate_empty sum_list_replicate_one)
  with err s' u(5) show ?thesis by simp
qed

lemma exec_call_running:
  assumes "exec_call run c s = Done (r, s')" and "running Q s"
    and "\<forall>a t. c \<noteq> CallAddCommand a t" and "\<forall>t. c \<noteq> CallWait t"
  shows "running Q s'"
proof -
  from assms(2) have started: "inputClosed (pool s)" by (rule runningE)
  show ?thesis
  proof (cases c)
    case (CallAddCommand a t)
    with assms(3) show ?thesis by simp
  next
    case (CallAddEnv x)
    with assms(1) started have "s' = s" by (simp add: exec_call_def AddEnv_def)
    with assms(2) show ?thesis by simp
  next
    case (CallStart now)
    with assms(1) started have "s' = s" by (simp add: exec_call_def Start_def)
    with assms(2) show ?thesis by simp
  next
    case (CallWait now)
    with assms(4) show ?thesis by simp
  next
    case (CallGetResults jid)
    with assms(1) have "s' = s" by (simp add: exec_call_def)
    with assms(2) show ?thesis by simp
  next
    case (StepWorker i)
    with assms(1) have "worker_step run i s = Done s'"
      by (auto simp: exec_call_def split: outcome.splits)
    from worker_step_running [OF this assms(2)] show ?thesis .
  qed
qed

lemma exec_calls_running:
  "exec_calls run cs s = Done (rets, s') \<Longrightarrow> running Q s \<Longrightarrow>
   \<forall>a t. CallAddCommand a t \<notin> set cs \<Longrightarrow> \<forall>t. CallWait t \<notin> set cs \<Longrightarrow> running Q s'"
proof (induction cs arbitrary: s rets)
  case Nil
  then show ?case by simp
next
  case (Cons c cs)
  from Cons.prems(1) obtain r s1 rs where c: "exec_call run c s = Done (r, s1)"
    and cs: "exec_calls run cs s1 = Done (rs, s')"
    by (rule exec_calls_Cons_Done)
  from Cons.prems(3) have c1: "\<forall>a t. c \<noteq> CallAddCommand a t"
    and r1: "\<forall>a t. CallAddCommand a t \<notin> set cs" by auto
  from Cons.prems(4) have c2: "\<forall>t. c \<noteq> CallWait t"
    and r2: "\<forall>t. CallWait t \<notin> set cs" by auto
  from exec_call_running [OF c Cons.prems(2) c1 c2] Cons.IH [OF cs _ r1 r2]
  show ?case by simp
qed

lemma alive_zero_iff: "alive w = 0 \<longleftrightarrow> w = Exited"
  by (cases w) simp_all

lemma alive_zero:
  "sum_list (map alive ws) = 0 \<Longrightarrow> w \<in> set ws \<Longrightarrow> w = Exited"
  by (induction ws) (auto simp: alive_zero_iff)

lemma all_Exited_holds:
  assumes "\<forall>w\<in>set ws. w = Exited"
  shows "sum_list (map holds_ids ws) = {#} \<and> sum_list (map holds_cmds ws) = {#}"
  using assms by (induction ws) simp_all

lemma Wait_running:
  assumes "Wait now (pool s) = Done (err, e)" and "running Q s" and "workers s \<noteq> []"
  shows "err = None \<and> cmdQueue e = Q \<and>
         mset (map JobId (cmdOutput e)) = mset (map jobId Q) \<and>
         mset (map Some (runs s)) = mset (map command Q)"
proof -
  from assms(2) obtain cin cout where
    cin: "workerChanIn (pool s) = Some cin" and
    cout: "workerChanOut (pool s) = Some cout" and
    started: "inputClosed (pool s)" and queue: "cmdQueue (pool s) = Q" and
    store: "cmdOutput (pool s) = []" and
    wg: "waitGroup (pool s) = int (sum_list (map alive (workers s)))" and
    opened: "\<not> chanClosed cout" and
    ids: "mset (map jobId (buf cin)) + sum_list (map holds_ids (workers s)) +
            mset (map JobId (buf cout)) = mset (map jobId Q)" and
    cmds: "mset (map command (buf cin)) + sum_list (map holds_cmds (workers s)) +
            mset (map Some (runs s)) = mset (map command Q)" and
    drained: "Exited \<in> set (workers s) \<longrightarrow> buf cin = []"
    by (rule runningE) blast
  from assms(1) started have zero: "waitGroup (pool s) = 0"
    by (auto simp: Wait_def split: if_splits)
  with wg have "sum_list (map alive (workers s)) = 0" by simp
  then have ex: "\<forall>w\<in>set (workers s). w = Exited"
    using alive_zero by blast
  with assms(3) have "Exited \<in> set (workers s)"
    by (cases "workers s") auto
  with drained have empty: "buf cin = []" by simp
  from all_Exited_holds [OF ex] ids cmds empty
  have ids': "mset (map JobId (buf cout)) = mset (map jobId Q)"
    and cmds': "mset (map Some (runs s)) = mset (map command Q)"
    by simp_all
  from assms(1) started zero cout opened
  have "err = None" and "cmdQueue e = cmdQueue (pool s)"
    and "cmdOutput e = cmdOutput (pool s) @ buf cout"
    by (auto simp: Wait_def chan_close_def collect_append)
  with store queue ids' cmds' show ?thesis by simp
qed

section \<open>Start, the workers, Wait\<close>

text \<open>
  C1. Take a new pool with \<open>W\<close> executors, any calls before \<open>Start\<close> that enqueue \<open>N\<close>
  commands, \<open>Start\<close>, then worker steps in any order (and calls that neither enqueue nor
  wait), then \<open>Wait\<close>, with \<open>1 \<le> W \<le> N\<close>. If the run gets through, \<open>Start\<close> and \<open>Wait\<close>
  returned no error, the store holds exactly \<open>N\<close> results, their identifiers are distinct
  and are, one for one, the identifiers \<open>AddCommand\<close> returned, and the trace of \<open>Run()\<close>
  calls holds each enqueued command once for each time it was enqueued.
\<close>

theorem Start_Wait_collects_every_job:
  assumes "\<forall>t. CallStart t \<notin> set prep"
    and "\<forall>a t. CallAddCommand a t \<notin> set mid" and "\<forall>t. CallWait t \<notin> set mid"
    and "1 \<le> W" and "W \<le> int (length (added_cmds prep))"
    and "exec_calls run (prep @ CallStart t1 # mid @ [CallWait t2]) (new_sys W rnd h w) =
           Done (rets, s)"
  shows "rets ! length prep = RetErr None \<and> last rets = RetErr None \<and>
         length (cmdOutput (pool s)) = length (added_cmds prep) \<and>
         distinct (map JobId (cmdOutput (pool s))) \<and>
         mset (map JobId (cmdOutput (pool s))) = mset (ret_ids rets) \<and>
         map jobId (cmdQueue (pool s)) = ret_ids rets \<and>
         mset (map Some (runs s)) = mset (added_cmds prep)"
proof -
  let ?init = "new_sys W rnd h w :: 'a sys"
  from assms(6) obtain r0 s0 rest where
    A: "exec_calls run prep ?init = Done (r0, s0)" and
    B: "exec_calls run (CallStart t1 # mid @ [CallWait t2]) s0 = Done (rest, s)" and
    rets: "rets = r0 @ rest"
    by (rule exec_calls_append_Done)
  from B obtain x s1 rest2 where
    C: "exec_call run (CallStart t1) s0 = Done (x, s1)" and
    D: "exec_calls run (mid @ [CallWait t2]) s1 = Done (rest2, s)" and
    rest: "rest = x # rest2"
    by (rule exec_calls_Cons_Done)
  from D obtain r2 s2 r3 where
    E: "exec_calls run mid s1 = Done (r2, s2)" and
    F: "exec_calls run [CallWait t2] s2 = Done (r3, s)" and
    rest2: "rest2 = r2 @ r3"
    by (rule exec_calls_append_Done)
  from F obtain y where
    G: "exec_call run (CallWait t2) s2 = Done (y, s)" and r3: "r3 = [y]"
    by (auto split: outcome.splits prod.splits)
  let ?Q = "cmdQueue (pool s0)"
  have u0: "unstarted s0"
    by (rule exec_calls_unstarted_inv [OF A new_sys_unstarted assms(1)])
  from C obtain err where start: "Start t1 s0 = Done (err, s1)" and x: "x = RetErr err"
    by (auto simp: exec_call_def split: outcome.splits prod.splits)
  from Start_running [OF start u0] have err: "err = None" and run1: "running ?Q s1"
    by simp_all
  have run2: "running ?Q s2"
    by (rule exec_calls_running [OF E run1 assms(2,3)])
  from G obtain err2 e where wait: "Wait t2 (pool s2) = Done (err2, e)"
    and y: "y = RetErr err2" and s: "s = s2\<lparr>pool := e\<rparr>"
    by (auto simp: exec_call_def split: outcome.splits prod.splits)
  have "executors (pool ?init) = W"
    by (simp add: new_sys_def NewExecPool_def)
  with exec_calls_frame [OF A] exec_call_frame [OF C] exec_calls_frame [OF E]
  have "executors (pool s2) = W" by simp
  moreover from run2 have "length (workers s2) = nat (executors (pool s2))"
    by (rule runningE)
  ultimately have "workers s2 \<noteq> []" using assms(4) by auto
  from Wait_running [OF wait run2 this]
  have err2: "err2 = None" and queue: "cmdQueue e = ?Q"
    and ids: "mset (map JobId (cmdOutput e)) = mset (map jobId ?Q)"
    and cmds: "mset (map Some (runs s2)) = mset (map command ?Q)"
    by simp_all
  have "cmdQueue (pool ?init) = []" and "numbered (poolId (pool ?init)) (cmdQueue (pool ?init))"
    by (simp_all add: new_sys_def NewExecPool_def numbered_def)
  with exec_calls_queue [OF A]
  have q_cmds: "map command ?Q = added_cmds prep"
    and q_num: "numbered (poolId (pool s0)) ?Q"
    by simp_all
  from exec_calls_queue [OF assms(6)] \<open>cmdQueue (pool ?init) = []\<close> s queue
  have q_ids: "map jobId ?Q = ret_ids rets" by simp
  from numbered_distinct [OF q_num] have "distinct (map jobId ?Q)" .
  with ids have dist: "distinct (map JobId (cmdOutput e))"
    using mset_eq_imp_distinct_iff by blast
  from ids have "length (map JobId (cmdOutput e)) = length (map jobId ?Q)"
    by (rule mset_eq_length)
  then have len: "length (cmdOutput e) = length (added_cmds prep)"
    using q_cmds by (metis length_map)
  have l0: "length r0 = length prep" by (rule exec_calls_length [OF A])
  have first: "rets ! length prep = RetErr None"
    using l0 by (simp add: rets rest x err nth_append)
  have final: "last rets = RetErr None"
    by (simp add: rets rest rest2 r3 y err2)
  from first final len dist ids cmds q_ids q_cmds s queue show ?thesis by simp
qed

theorem Start_Wait_collects_every_job_witness:
  "\<exists>rets s.
     exec_calls demo_run demo_calls (new_sys 1 demo_rnd demo_heap (0::nat)) = Done (rets, s) \<and>
     length (cmdOutput (pool s)) = 2 \<and>
     distinct (map JobId (cmdOutput (pool s))) \<and>
     mset (map JobId (cmdOutput (pool s))) = mset (ret_ids rets) \<and>
     mset (runs s) = {#0, 2#}"
proof -
  let ?prep = "[CallAddCommand (Some 0) ''2023-01-01T00:00:00Z'',
                CallAddCommand (Some 2) ''2023-01-01T00:00:01Z'']"
  let ?mid = "[StepWorker 0, StepWorker 0, StepWorker 0, StepWorker 0, StepWorker 0,
               StepWorker 0, StepWorker 0]"
  have split: "demo_calls = ?prep @ CallStart 10 # ?mid @ [CallWait 20]"
    by (simp add: demo_calls_def)
  from demo_calls_Done obtain rets s where
    a: "exec_calls demo_run demo_calls (new_sys 1 demo_rnd demo_heap (0::nat)) = Done (rets, s)"
    and r: "runs s = [0, 2]"
    by blast
  have p1: "\<forall>t. CallStart t \<notin> set ?prep" by simp
  have p2: "\<forall>a t. CallAddCommand a t \<notin> set ?mid" by simp
  have p3: "\<forall>t. CallWait t \<notin> set ?mid" by simp
  have p4: "(1::int) \<le> 1" by simp
  have p5: "(1::int) \<le> int (length (added_cmds ?prep))" by simp
  from Start_Wait_collects_every_job [OF p1 p2 p3 p4 p5 a [unfolded split]]
  have "length (cmdOutput (pool s)) = 2 \<and>
     distinct (map JobId (cmdOutput (pool s))) \<and>
     mset (map JobId (cmdOutput (pool s))) = mset (ret_ids rets)"
    by simp
  with a r show ?thesis by auto
qed

section \<open>The workers never get stuck\<close>


lemma sum_list_map_split:
  fixes f :: "'a \<Rightarrow> 'b::cancel_comm_monoid_add"
  assumes "i < length ws" and "f z = 0"
  shows "sum_list (map f ws) = sum_list (map f (ws[i := z])) + f (ws ! i)"
  using sum_list_map_update [OF assms(1), of f z] assms(2) by simp

lemma alive_le_sum:
  assumes "i < length ws"
  shows "alive (ws ! i) \<le> sum_list (map alive ws)"
  using sum_list_map_split [OF assms, of alive Exited] by simp

lemma holds_ids_size_le:
  assumes "i < length ws"
  shows "size (holds_ids (ws ! i)) \<le> size (sum_list (map holds_ids ws))"
  using sum_list_map_split [OF assms, of holds_ids Exited] by simp

lemma holds_cmds_member:
  assumes "i < length ws" and "x \<in># holds_cmds (ws ! i)"
  shows "x \<in># sum_list (map holds_cmds ws)"
  using sum_list_map_split [OF assms(1), of holds_cmds Exited] assms(2) by simp

lemma worker_step_enabled:
  assumes inv: "running Q s" and cmds_ok: "None \<notin> set (map command Q)"
    and i: "i < length (workers s)" and live: "workers s ! i \<noteq> Exited"
  shows "\<exists>s'. worker_step run i s = Done s'"
proof -
  from inv obtain cin cout where
    cin: "workerChanIn (pool s) = Some cin" and
    cout: "workerChanOut (pool s) = Some cout" and
    wg: "waitGroup (pool s) = int (sum_list (map alive (workers s)))" and
    closed: "chanClosed cin" and opened: "\<not> chanClosed cout" and
    room: "cap cout = length Q" and
    ids: "mset (map jobId (buf cin)) + sum_list (map holds_ids (workers s)) +
            mset (map JobId (buf cout)) = mset (map jobId Q)" and
    cmds: "mset (map command (buf cin)) + sum_list (map holds_cmds (workers s)) +
            mset (map Some (runs s)) = mset (map command Q)"
    by (rule runningE) blast
  show ?thesis
  proof (cases "workers s ! i")
    case Receiving
    from alive_le_sum [OF i] Receiving wg have "0 < waitGroup (pool s)" by simp
    with i Receiving cin closed show ?thesis
      by (cases "buf cin") (simp_all add: worker_step_def chan_recv_def)
  next
    case (Running job)
    from holds_cmds_member [OF i, of "command job"] Running
    have "command job \<in># sum_list (map holds_cmds (workers s))" by simp
    then have "command job \<in># mset (map command Q)"
      unfolding cmds [symmetric] by simp
    with cmds_ok obtain a where "command job = Some a"
      by (cases "command job") auto
    with i Running show ?thesis
      by (simp add: worker_step_def split: prod.splits)
  next
    case (Sending res)
    from holds_ids_size_le [OF i] Sending
    have "1 \<le> size (sum_list (map holds_ids (workers s)))" by simp
    moreover from ids have "size (mset (map jobId (buf cin)) + sum_list (map holds_ids (workers s)) +
            mset (map JobId (buf cout))) = size (mset (map jobId Q))"
      by simp
    ultimately have "length (buf cout) < length Q" by simp
    with i Sending cout opened room show ?thesis
      by (simp add: worker_step_def chan_send_def)
  next
    case Exited
    with live show ?thesis by simp
  qed
qed

lemma worker_step_remaining:
  assumes "worker_step run i s = Done s'"
  shows "Suc (remaining s') = remaining s"
  using assms
proof (cases rule: worker_step_DoneE)
  case (recv c job rest)
  from sum_list_map_update [OF recv(1), of weight "Running job"] recv(2)
  have "sum_list (map weight ((workers s)[i := Running job])) = sum_list (map weight (workers s)) + 2"
    by simp
  with recv show ?thesis by (simp add: remaining_def)
next
  case (exit c)
  from sum_list_map_update [OF exit(1), of weight Exited] exit(2)
  have "sum_list (map weight ((workers s)[i := Exited])) + 1 = sum_list (map weight (workers s))"
    by simp
  with exit show ?thesis by (simp add: remaining_def)
next
  case (run job a)
  let ?res = "make_result job (snd (run (world s) (heap s a)))"
  from sum_list_map_update [OF run(1), of weight "Sending ?res"] run(2)
  have "sum_list (map weight ((workers s)[i := Sending ?res])) + 1 = sum_list (map weight (workers s))"
    by simp
  with run show ?thesis by (simp add: remaining_def)
next
  case (send c res)
  from sum_list_map_update [OF send(1), of weight Receiving] send(2)
  have "sum_list (map weight ((workers s)[i := Receiving])) + 1 = sum_list (map weight (workers s))"
    by simp
  with send show ?thesis by (simp add: remaining_def)
qed

lemma StepWorker_Done:
  "exec_call run (StepWorker i) s = Done (r, s') \<longleftrightarrow> r = RetStep \<and> worker_step run i s = Done s'"
  by (auto simp: exec_call_def split: outcome.splits)

lemma steps_bounded:
  "exec_calls run (map StepWorker sched) s = Done (r, s') \<Longrightarrow>
   remaining s' + length sched = remaining s"
proof (induction sched arbitrary: s r)
  case Nil
  then show ?case by simp
next
  case (Cons i sched)
  from Cons.prems have "exec_calls run (StepWorker i # map StepWorker sched) s = Done (r, s')"
    by simp
  then obtain x s1 rs where c: "exec_call run (StepWorker i) s = Done (x, s1)"
    and cs: "exec_calls run (map StepWorker sched) s1 = Done (rs, s')"
    by (rule exec_calls_Cons_Done)
  from c have "worker_step run i s = Done s1" by (simp add: StepWorker_Done)
  from worker_step_remaining [OF this] Cons.IH [OF cs] show ?case by simp
qed

lemma workers_finish:
  assumes "running Q s" and "None \<notin> set (map command Q)"
  shows "\<exists>sched r s'. exec_calls run (map StepWorker sched) s = Done (r, s') \<and>
           running Q s' \<and> (\<forall>w\<in>set (workers s'). w = Exited)"
  using assms(1)
proof (induction "remaining s" arbitrary: s rule: less_induct)
  case less
  show ?case
  proof (cases "\<forall>w\<in>set (workers s). w = Exited")
    case True
    have "exec_calls run (map StepWorker []) s = Done ([], s)" by simp
    with less.prems True show ?thesis by blast
  next
    case False
    then obtain i where i: "i < length (workers s)" and live: "workers s ! i \<noteq> Exited"
      by (auto simp: in_set_conv_nth)
    from worker_step_enabled [OF less.prems assms(2) i live]
    obtain s1 where step: "worker_step run i s = Done s1" by blast
    from worker_step_remaining [OF step] have "remaining s1 < remaining s" by simp
    moreover have "running Q s1" by (rule worker_step_running [OF step less.prems])
    ultimately obtain sched r s' where
      rest: "exec_calls run (map StepWorker sched) s1 = Done (r, s')" and
      fin: "running Q s'" "\<forall>w\<in>set (workers s'). w = Exited"
      using less.hyps by blast
    from step rest have "exec_calls run (map StepWorker (i # sched)) s = Done (RetStep # r, s')"
      by (simp add: exec_call_def)
    with fin show ?thesis by blast
  qed
qed

lemma worker_step_Running:
  assumes "worker_step run i s = Done s'" and "workers s ! i = Running job"
  shows "\<exists>a. command job = Some a \<and>
           workers s' ! i = Sending (make_result job (snd (run (world s) (heap s a)))) \<and>
           runs s' = runs s @ [a]"
  using assms(1)
proof (cases rule: worker_step_DoneE)
  case (run job' a)
  with assms(2) show ?thesis by simp
qed (use assms(2) in simp_all)

lemma started_running:
  assumes "\<forall>t. CallStart t \<notin> set prep"
    and "\<forall>a t. CallAddCommand a t \<notin> set mid" and "\<forall>t. CallWait t \<notin> set mid"
    and "exec_calls run (prep @ CallStart t1 # mid) (new_sys W rnd h w) = Done (rets, s)"
  shows "\<exists>Q. running Q s \<and> map command Q = added_cmds prep"
proof -
  let ?init = "new_sys W rnd h w :: 'a sys"
  from assms(4) obtain r0 s0 rest where
    A: "exec_calls run prep ?init = Done (r0, s0)" and
    B: "exec_calls run (CallStart t1 # mid) s0 = Done (rest, s)"
    by (rule exec_calls_append_Done)
  from B obtain x s1 r2 where
    C: "exec_call run (CallStart t1) s0 = Done (x, s1)" and
    E: "exec_calls run mid s1 = Done (r2, s)"
    by (rule exec_calls_Cons_Done)
  have u0: "unstarted s0"
    by (rule exec_calls_unstarted_inv [OF A new_sys_unstarted assms(1)])
  from C obtain err where start: "Start t1 s0 = Done (err, s1)"
    by (auto simp: exec_call_def split: outcome.splits prod.splits)
  from Start_running [OF start u0] have run1: "running (cmdQueue (pool s0)) s1"
    by simp
  have run2: "running (cmdQueue (pool s0)) s"
    by (rule exec_calls_running [OF E run1 assms(2,3)])
  have "cmdQueue (pool ?init) = []"
    by (simp add: new_sys_def NewExecPool_def)
  with exec_calls_queue [OF A] have "map command (cmdQueue (pool s0)) = added_cmds prep"
    by simp
  with run2 show ?thesis by blast
qed

text \<open>
  C3. Take a pool that was started with commands none of which is nil, in any state the
  workers can bring it to. No step of a worker panics; every worker that has not exited
  can take its next step (it is never blocked); the worker that holds a job runs its
  command and goes on to send a result with the job's identifier, the error \<open>Run()\<close>
  returned and the exit code of the command's process state, which is \<open>-1\<close> when the
  command could not be launched and has no process state; and from that state the
  workers can all finish, within the bounded number of steps that are left.
\<close>

theorem worker_never_panics:
  assumes "\<forall>t. CallStart t \<notin> set prep"
    and "None \<notin> set (added_cmds prep)"
    and "\<forall>a t. CallAddCommand a t \<notin> set mid" and "\<forall>t. CallWait t \<notin> set mid"
    and "exec_calls run (prep @ CallStart t1 # mid) (new_sys W rnd h w) = Done (rets, s)"
  shows "(\<forall>i p. worker_step run i s \<noteq> Panic p) \<and>
         (\<forall>i<length (workers s). workers s ! i \<noteq> Exited \<longrightarrow>
            (\<exists>s'. worker_step run i s = Done s')) \<and>
         (\<forall>i job. i < length (workers s) \<and> workers s ! i = Running job \<longrightarrow>
            (\<exists>a s'. command job = Some a \<and> worker_step run i s = Done s' \<and>
               workers s' ! i =
                 Sending (make_result job (snd (run (world s) (heap s a)))))) \<and>
         (\<forall>job oc. JobId (make_result job oc) = jobId job \<and>
            RunError (make_result job oc) = runErr oc \<and>
            ReturnCode (make_result job oc) = ExitCode (procState oc) \<and>
            (procState oc = None \<longrightarrow> ReturnCode (make_result job oc) = - 1)) \<and>
         (\<exists>sched r s'. exec_calls run (map StepWorker sched) s = Done (r, s') \<and>
            (\<forall>w\<in>set (workers s'). w = Exited)) \<and>
         (\<forall>sched r s'. exec_calls run (map StepWorker sched) s = Done (r, s') \<longrightarrow>
            length sched \<le> remaining s)"
proof -
  from started_running [OF assms(1,3,4,5)] obtain Q where
    inv: "running Q s" and Q: "map command Q = added_cmds prep"
    by blast
  from assms(2) have ok: "None \<notin> set (map command Q)"
    unfolding Q .
  have enabled: "\<exists>s'. worker_step run i s = Done s'"
    if "i < length (workers s)" and "workers s ! i \<noteq> Exited" for i
    using worker_step_enabled [OF inv ok that] .
  have nopanic: "worker_step run i s \<noteq> Panic p" for i p
  proof (cases "i < length (workers s) \<and> workers s ! i \<noteq> Exited")
    case True
    with enabled [of i] show ?thesis by auto
  next
    case False
    then have "worker_step run i s = Blocks"
      by (auto simp: worker_step_def)
    then show ?thesis by simp
  qed
  have result: "\<exists>a s'. command job = Some a \<and> worker_step run i s = Done s' \<and>
               workers s' ! i = Sending (make_result job (snd (run (world s) (heap s a))))"
    if "i < length (workers s)" and "workers s ! i = Running job" for i job
  proof -
    from enabled [OF that(1)] that(2) obtain s' where step: "worker_step run i s = Done s'"
      by auto
    from worker_step_Running [OF step that(2)] step show ?thesis by blast
  qed
  have fields: "JobId (make_result job oc) = jobId job \<and>
            RunError (make_result job oc) = runErr oc \<and>
            ReturnCode (make_result job oc) = ExitCode (procState oc) \<and>
            (procState oc = None \<longrightarrow> ReturnCode (make_result job oc) = - 1)" for job oc
    by (simp add: make_result_def ExitCode_def)
  from workers_finish [OF inv ok, of run]
  have finish: "\<exists>sched r s'. exec_calls run (map StepWorker sched) s = Done (r, s') \<and>
            (\<forall>w\<in>set (workers s'). w = Exited)"
    by blast
  have bound: "length sched \<le> remaining s"
    if "exec_calls run (map StepWorker sched) s = Done (r, s')" for sched r s'
    using steps_bounded [OF that] by simp
  from nopanic enabled result fields finish bound show ?thesis by blast
qed

theorem worker_never_panics_witness:
  "\<exists>rets s s' res.
     exec_calls demo_run
       ([CallAddCommand (Some 0) ''2023-01-01T00:00:00Z'',
         CallAddCommand (Some 2) ''2023-01-01T00:00:01Z''] @
        CallStart 10 # [StepWorker 0, StepWorker 0, StepWorker 0, StepWorker 0])
       (new_sys 1 demo_rnd demo_heap (0::nat)) = Done (rets, s) \<and>
     worker_step demo_run 0 s = Done s' \<and>
     workers s' ! 0 = Sending res \<and>
     RunError res = Some ''no such file or directory'' \<and>
     ReturnCode res = - 1"
proof -
  let ?prep = "[CallAddCommand (Some 0) ''2023-01-01T00:00:00Z'',
                CallAddCommand (Some 2) ''2023-01-01T00:00:01Z'']"
  let ?mid = "[StepWorker 0, StepWorker 0, StepWorker 0, StepWorker 0]"
  from demo_mid_Done obtain rets s job where
    a: "exec_calls demo_run (?prep @ CallStart 10 # ?mid)
          (new_sys 1 demo_rnd demo_heap (0::nat)) = Done (rets, s)" and
    l: "length (workers s) = 1" and j: "workers s ! 0 = Running job" and
    c: "command job = Some 2" and p: "Path (heap s 2) = ''/no/such/file''"
    by auto
  have p1: "\<forall>t. CallStart t \<notin> set ?prep" by simp
  have p2: "None \<notin> set (added_cmds ?prep)" by simp
  have p3: "\<forall>a t. CallAddCommand a t \<notin> set ?mid" by simp
  have p4: "\<forall>t. CallWait t \<notin> set ?mid" by simp
  from worker_never_panics [OF p1 p2 p3 p4 a] l j
  obtain a' s' where "command job = Some a'" and
    step: "worker_step demo_run 0 s = Done s'" and
    res: "workers s' ! 0 = Sending (make_result job (snd (demo_run (world s) (heap s a'))))"
    by auto
  with c have res': "workers s' ! 0 = Sending (make_result job (snd (demo_run (world s) (heap s 2))))"
    by simp
  from p have "RunError (make_result job (snd (demo_run (world s) (heap s 2)))) =
                 Some ''no such file or directory'' \<and>
               ReturnCode (make_result job (snd (demo_run (world s) (heap s 2)))) = - 1"
    by (simp add: make_result_def demo_run_def ExitCode_def)
  with a step res' show ?thesis by blast
qed

section \<open>Start and Wait return\<close>


lemma load_jobs_total:
  assumes "\<not> chanClosed c" and "length (buf c) + length q \<le> cap c"
    and "env \<noteq> [] \<longrightarrow> None \<notin> set (map command q)"
  shows "\<exists>h'. load_jobs env q h c = Done (h', c\<lparr>buf := buf c @ q\<rparr>)"
  using assms
proof (induction q arbitrary: h c)
  case Nil
  then show ?case by simp
next
  case (Cons j q)
  let ?c = "c\<lparr>buf := buf c @ [j]\<rparr>"
  let ?h = "case command j of
              Some a \<Rightarrow> if env \<noteq> [] then h(a := (h a)\<lparr>Env := env\<rparr>) else h
            | None \<Rightarrow> h"
  from Cons.prems have send: "chan_send j c = Done ?c"
    by (simp add: chan_send_def)
  from Cons.prems have "\<not> chanClosed ?c" and "length (buf ?c) + length q \<le> cap ?c"
    and "env \<noteq> [] \<longrightarrow> None \<notin> set (map command q)"
    by auto
  from Cons.IH [OF this, of ?h] obtain h' where
    "load_jobs env q ?h ?c = Done (h', ?c\<lparr>buf := buf ?c @ q\<rparr>)"
    by blast
  moreover from Cons.prems(3) have "\<not> (env \<noteq> [] \<and> command j = None)" by auto
  ultimately show ?case using send by (simp add: Let_def)
qed

lemma Start_total:
  assumes "\<not> inputClosed (pool s)"
    and "cmdEnv (pool s) \<noteq> [] \<longrightarrow> None \<notin> set (map command (cmdQueue (pool s)))"
  shows "\<exists>s'. Start now s = Done (None, s')"
proof -
  have "\<not> chanClosed (make_chan (length (cmdQueue (pool s))) :: CommandRequest chan)"
    and "length (buf (make_chan (length (cmdQueue (pool s))) :: CommandRequest chan)) +
           length (cmdQueue (pool s)) \<le> cap (make_chan (length (cmdQueue (pool s))) :: CommandRequest chan)"
    by (simp_all add: make_chan_def)
  from load_jobs_total [OF this assms(2), of "heap s"] obtain h' where
    "load_jobs (cmdEnv (pool s)) (cmdQueue (pool s)) (heap s) (make_chan (length (cmdQueue (pool s)))) =
       Done (h', (make_chan (length (cmdQueue (pool s))))\<lparr>buf := buf (make_chan (length (cmdQueue (pool s)))) @ cmdQueue (pool s)\<rparr>)"
    by blast
  with assms(1) show ?thesis
    by (simp add: Start_def Let_def chan_close_def make_chan_def)
qed

lemma Wait_returns:
  assumes "running Q s" and "\<forall>w\<in>set (workers s). w = Exited"
  shows "\<exists>e. Wait now (pool s) = Done (None, e)"
proof -
  from assms(1) obtain cin cout where
    cin: "workerChanIn (pool s) = Some cin" and
    cout: "workerChanOut (pool s) = Some cout" and
    started: "inputClosed (pool s)" and
    wg: "waitGroup (pool s) = int (sum_list (map alive (workers s)))" and
    opened: "\<not> chanClosed cout"
    by (rule runningE) blast
  from assms(2) have "sum_list (map alive (workers s)) = 0"
    by (induction "workers s") (auto simp: alive_zero_iff)
  with wg have "waitGroup (pool s) = 0" by simp
  with cout started opened show ?thesis
    by (simp add: Wait_def chan_close_def)
qed

text \<open>
  The run that C1 is about exists: after any calls that enqueue commands none of which is
  nil, \<open>Start\<close> returns, the workers can take their steps to the end, and then \<open>Wait\<close>
  returns.
\<close>

lemma Start_Wait_return:
  assumes "\<forall>t. CallStart t \<notin> set prep"
    and "None \<notin> set (added_cmds prep)"
    and "exec_calls run prep (new_sys W rnd h w) = Done (r0, s0)"
  shows "\<exists>sched rets s.
           exec_calls run (prep @ CallStart t1 # map StepWorker sched @ [CallWait t2])
             (new_sys W rnd h w) = Done (rets, s)"
proof -
  let ?init = "new_sys W rnd h w :: 'a sys"
  let ?Q = "cmdQueue (pool s0)"
  have u0: "unstarted s0"
    by (rule exec_calls_unstarted_inv [OF assms(3) new_sys_unstarted assms(1)])
  have "cmdQueue (pool ?init) = []"
    by (simp add: new_sys_def NewExecPool_def)
  with exec_calls_queue [OF assms(3)] have Q: "map command ?Q = added_cmds prep"
    by simp
  from assms(2) have ok: "None \<notin> set (map command ?Q)"
    unfolding Q .
  from u0 have "\<not> inputClosed (pool s0)" by (simp add: unstarted_def)
  from Start_total [OF this, of t1] ok obtain s1 where
    start: "Start t1 s0 = Done (None, s1)"
    by blast
  from Start_running [OF start u0] have run1: "running ?Q s1" by simp
  from workers_finish [OF run1 ok, of run] obtain sched r2 s2 where
    steps: "exec_calls run (map StepWorker sched) s1 = Done (r2, s2)" and
    run2: "running ?Q s2" and fin: "\<forall>w\<in>set (workers s2). w = Exited"
    by blast
  from Wait_returns [OF run2 fin, of t2] obtain e where
    wait: "Wait t2 (pool s2) = Done (None, e)"
    by blast
  from assms(3) start steps wait
  have "exec_calls run (prep @ CallStart t1 # map StepWorker sched @ [CallWait t2]) ?init =
          Done (r0 @ RetErr None # r2 @ [RetErr None], s2\<lparr>pool := e\<rparr>)"
    by (simp add: exec_calls_append exec_call_def)
  then show ?thesis by blast
qed

text \<open>
  A second \<open>Wait\<close> on a pool whose workers are done closes the output channel again: in
  Go that is the panic "close of closed channel".
\<close>

lemma Wait_again_panics:
  assumes "Wait t1 (pool s) = Done (None, e)"
  shows "Wait t2 e = Panic CloseOfClosedChannel"
  using assms
  by (auto simp: Wait_def chan_close_def split: if_splits option.splits)

section \<open>Enqueueing after Start\<close>


text \<open>
  C2, at a failing input. \<open>AddCommand\<close> does not look at \<open>inputClosed\<close>, as \<open>AddEnv\<close> does.
  In this run a command is enqueued after \<open>Start\<close>: the queue grows from one request to
  two on a started pool. The input channel was loaded and closed by \<open>Start\<close>, so the
  late request is never received: after the worker has finished and \<open>Wait\<close> has
  collected, the store holds one result and the lookup of the late identifier, the last
  call of the run, returns nothing.
\<close>

theorem AddCommand_after_Start_grows_queue:
  "\<exists>r1 s1 r2 s2 rets s late.
     exec_calls demo_run [CallAddCommand (Some 0) ''2023-01-01T00:00:00Z'', CallStart 1]
       (new_sys 1 demo_rnd demo_heap (0::nat)) = Done (r1, s1) \<and>
     inputClosed (pool s1) \<and> length (cmdQueue (pool s1)) = 1 \<and>
     exec_call demo_run (CallAddCommand (Some 1) ''2023-01-01T00:00:01Z'') s1 =
       Done (RetId late, s2) \<and>
     inputClosed (pool s2) \<and> length (cmdQueue (pool s2)) = 2 \<and>
     exec_calls demo_run
       [StepWorker 0, StepWorker 0, StepWorker 0, StepWorker 0, CallWait 2, CallGetResults late]
       s2 = Done (rets, s) \<and>
     length (cmdOutput (pool s)) = 1 \<and> last rets = RetResult None \<and> runs s = [0]"
proof -
  have ne: "job_id t (int 0) pid \<noteq> job_id t' (int 1) pid" for t t' pid
    using job_id_sequence_unique [of t 0 pid t' 1] by auto
  then have "job_id t 0 pid \<noteq> job_id t' 1 pid" for t t' pid
    using ne [of t pid t'] by simp
  then show ?thesis
    by (simp add: demo_simps)
qed

end
